theory Spec2Isabelle
  imports Complex_Main
begin

section \<open>Model of the ECG pipeline (ecg_utils.py, app.py)\<close>

text \<open>
  Floating-point samples and probabilities are idealised as real numbers. Sample
  indices are Python integers (\<open>int\<close>); lengths and counts are naturals.
  Every \<^verbatim>\<open>raise\<close> of the source is a value of \<open>error\<close>.
\<close>

datatype error =
    FilterInputTooShort
  | DetectorFailed
  | NoValidPeaks
  | NoPeaksDetected
  | NoSegmentsExtracted
  | NoValidSegments
  | ShapeMismatch
  | EmptySequence
  | KeyError nat

subsection \<open>Aggregator: \<^verbatim>\<open>Counter\<close> and \<^verbatim>\<open>max(..., key=...)\<close> (app.py, process_ecg_file)\<close>

text \<open>
  \<^verbatim>\<open>Counter(segment_classes)\<close> is a dict: it keeps its keys in insertion order, and
  counting an element that is already a key leaves the key where it is. The model is an
  association list in that order.
\<close>

fun counter_add :: "(nat \<times> nat) list \<Rightarrow> nat \<Rightarrow> (nat \<times> nat) list" where
  "counter_add [] c = [(c, 1)]"
| "counter_add ((k, n) # kvs) c =
     (if k = c then (k, Suc n) # kvs else (k, n) # counter_add kvs c)"

definition Counter :: "nat list \<Rightarrow> (nat \<times> nat) list" where
  "Counter segment_classes = foldl counter_add [] segment_classes"

text \<open>\<^verbatim>\<open>class_votes.get\<close>, used as the key function (only ever applied to keys).\<close>

definition votes_get :: "(nat \<times> nat) list \<Rightarrow> nat \<Rightarrow> nat" where
  "votes_get class_votes k = (case map_of class_votes k of Some n \<Rightarrow> n | None \<Rightarrow> 0)"

text \<open>
  Python's \<^verbatim>\<open>max(iterable, key=f)\<close> walks the iterable once and replaces the current
  best only by an item whose key is strictly greater; on an empty iterable it raises.
\<close>

fun max_scan :: "('a \<Rightarrow> nat) \<Rightarrow> 'a \<Rightarrow> 'a list \<Rightarrow> 'a" where
  "max_scan key best [] = best"
| "max_scan key best (x # xs) = max_scan key (if key best < key x then x else best) xs"

definition py_max_key :: "('a \<Rightarrow> nat) \<Rightarrow> 'a list \<Rightarrow> error + 'a" where
  "py_max_key key xs = (case xs of [] \<Rightarrow> Inl EmptySequence | x # rest \<Rightarrow> Inr (max_scan key x rest))"

text \<open>\<^verbatim>\<open>final_class_idx = max(class_votes, key=class_votes.get)\<close>\<close>

definition final_class_idx :: "nat list \<Rightarrow> error + nat" where
  "final_class_idx segment_classes =
     (let class_votes = Counter segment_classes
      in py_max_key (votes_get class_votes) (map fst class_votes))"

text \<open>Position of the first occurrence of a class in the prediction sequence.\<close>

definition first_pos :: "nat list \<Rightarrow> nat \<Rightarrow> nat" where
  "first_pos xs c = length (takeWhile (\<lambda>x. x \<noteq> c) xs)"

subsection \<open>numpy and built-in helpers\<close>

text \<open>
  \<^verbatim>\<open>np.mean\<close> and \<^verbatim>\<open>np.std\<close> (population standard deviation, \<^verbatim>\<open>ddof=0\<close>). On an
  empty array numpy returns NaN; every call below is on a non-empty array or is
  guarded by an emptiness test, which the callers write out.
\<close>

definition np_mean :: "real list \<Rightarrow> real" where
  "np_mean xs = sum_list xs / real (length xs)"

definition np_var :: "real list \<Rightarrow> real" where
  "np_var xs = np_mean (map (\<lambda>x. (x - np_mean xs)\<^sup>2) xs)"

definition np_std :: "real list \<Rightarrow> real" where
  "np_std xs = sqrt (np_var xs)"

text \<open>
  Python's \<^verbatim>\<open>round(x, ndigits)\<close> rounds to the nearest multiple of \<open>10^-ndigits\<close>,
  a tie going to the even neighbour.
\<close>

definition round_half_even :: "real \<Rightarrow> int" where
  "round_half_even x =
     (let f = \<lfloor>x\<rfloor>; d = x - of_int f
      in if d < 1 / 2 then f else if 1 / 2 < d then f + 1 else if even f then f else f + 1)"

definition py_round :: "real \<Rightarrow> nat \<Rightarrow> real" where
  "py_round x ndigits = of_int (round_half_even (x * 10 ^ ndigits)) / 10 ^ ndigits"

text \<open>
  Conversion to \<^verbatim>\<open>np.float32\<close>: the nearest number with a 24-bit significand, a tie
  going to the even one. For \<open>2^e \<le> |x| < 2^(e+1)\<close> neighbouring 32-bit floats are
  \<open>2^(e-23)\<close> apart; below \<open>2^-126\<close> (the subnormal range) they are \<open>2^-149\<close> apart.
  Overflow to infinity (from \<open>2^128\<close> on) is not modelled: the conversion below is
  applied only to validated segments, whose amplitude is at most 100.
\<close>

definition float32_ulp :: "real \<Rightarrow> real" where
  "float32_ulp x =
     (let e = max (- 126) \<lfloor>log 2 \<bar>x\<bar>\<rfloor>
      in if 23 \<le> e then 2 ^ nat (e - 23) else 1 / 2 ^ nat (23 - e))"

definition to_float32 :: "real \<Rightarrow> real" where
  "to_float32 x =
     (if x = 0 then 0 else of_int (round_half_even (x / float32_ulp x)) * float32_ulp x)"

text \<open>
  \<^verbatim>\<open>np.argmax\<close> returns the index of the first occurrence of the maximum and
  \<^verbatim>\<open>np.max\<close> the maximum; both raise on an empty row.
\<close>

fun argmax_scan :: "nat \<Rightarrow> real \<Rightarrow> nat \<Rightarrow> real list \<Rightarrow> nat" where
  "argmax_scan bi bv i [] = bi"
| "argmax_scan bi bv i (v # vs) =
     (if bv < v then argmax_scan i v (Suc i) vs else argmax_scan bi bv (Suc i) vs)"

definition np_argmax :: "real list \<Rightarrow> error + nat" where
  "np_argmax row = (case row of [] \<Rightarrow> Inl EmptySequence | v # vs \<Rightarrow> Inr (argmax_scan 0 v 1 vs))"

definition np_max :: "real list \<Rightarrow> error + real" where
  "np_max row = (case row of [] \<Rightarrow> Inl EmptySequence | v # vs \<Rightarrow> Inr (foldl max v vs))"

text \<open>Applying a raising function along \<^verbatim>\<open>axis=1\<close>: the first error aborts.\<close>

fun along_rows :: "('a \<Rightarrow> error + 'b) \<Rightarrow> 'a list \<Rightarrow> error + 'b list" where
  "along_rows f [] = Inr []"
| "along_rows f (r # rs) =
     (case f r of Inl e \<Rightarrow> Inl e
      | Inr y \<Rightarrow> (case along_rows f rs of Inl e \<Rightarrow> Inl e | Inr ys \<Rightarrow> Inr (y # ys)))"

text \<open>The slice \<^verbatim>\<open>xs[start:end]\<close> for \<open>0 \<le> start\<close> and \<open>0 \<le> end\<close>.\<close>

definition py_slice :: "'a list \<Rightarrow> nat \<Rightarrow> nat \<Rightarrow> 'a list" where
  "py_slice xs start end = take (end - start) (drop start xs)"

text \<open>
  \<^verbatim>\<open>int(0.t * sampling_rate)\<close> for a tenth \<open>t\<close>: the product truncated towards zero.
  For the integer sampling rates the service uses (360) this is \<open>\<lfloor>t * rate / 10\<rfloor>\<close>:
  216, 144 and 72 samples for 0.6, 0.4 and 0.2.
\<close>

definition int_of_tenths :: "nat \<Rightarrow> nat \<Rightarrow> int" where
  "int_of_tenths t sampling_rate = int ((t * sampling_rate) div 10)"

subsection \<open>External capabilities\<close>

text \<open>
  The library routines the pipeline calls are parameters of the model:
  \<^item> \<open>gqrs_detect\<close>: the WFDB detector; \<open>None\<close> when the import or the call raises;
  \<^item> \<open>find_peaks\<close>: \<^verbatim>\<open>scipy.signal.find_peaks(x, height, distance, prominence, width)\<close>,
    which may raise;
  \<^item> \<open>np_percentile\<close>: \<^verbatim>\<open>np.percentile\<close>;
  \<^item> \<open>bandpass\<close>: the order-4 Butterworth band-pass run forwards and backwards
    (\<^verbatim>\<open>butter\<close> then \<^verbatim>\<open>filtfilt\<close>) at a sampling rate;
  \<^item> \<open>model_predict\<close>: the classifier, a batch of segments to a batch of probability rows.
\<close>

record env =
  gqrs_detect :: "real list \<Rightarrow> nat \<Rightarrow> int list option"
  find_peaks :: "real list \<Rightarrow> real option \<Rightarrow> int \<Rightarrow> real \<Rightarrow> real option \<Rightarrow> error + int list"
  np_percentile :: "real list \<Rightarrow> real \<Rightarrow> real"
  bandpass :: "nat \<Rightarrow> real list \<Rightarrow> real list"
  model_predict :: "real list list \<Rightarrow> real list list"

subsection \<open>SignalConditioner: \<^verbatim>\<open>preprocess_ecg\<close>\<close>

text \<open>
  \<^verbatim>\<open>signal.filtfilt(b, a, x)\<close> pads the signal by \<^verbatim>\<open>padlen = 3 * max(len(a), len(b))\<close>
  samples at each end and raises \<^verbatim>\<open>ValueError\<close> unless \<^verbatim>\<open>len(x) > padlen\<close>. The
  order-4 band-pass of \<^verbatim>\<open>butter(4, [low, high], btype='band')\<close> has 9 coefficients in
  each of \<^verbatim>\<open>b\<close> and \<^verbatim>\<open>a\<close>, so \<^verbatim>\<open>padlen\<close> is 27.

  The model is of sampling rates from 2 Hz on, for which the band edges
  \<open>max (1 / rate) 0.001\<close> and \<open>min (80 / rate) 0.999\<close> lie strictly between 0 and 1 as
  \<^verbatim>\<open>butter\<close> requires. At rate 0 the source divides by zero and at rate 1 \<^verbatim>\<open>butter\<close>
  rejects the lower edge 1.0, both before the filter runs; the service always runs at
  360 Hz.
\<close>

definition filtfilt_padlen :: nat where
  "filtfilt_padlen = 3 * 9"

definition preprocess_ecg :: "env \<Rightarrow> real list \<Rightarrow> nat \<Rightarrow> error + real list" where
  "preprocess_ecg ev ecg_signal sampling_rate =
     (let centred = map (\<lambda>x. x - np_mean ecg_signal) ecg_signal
      in if length centred \<le> filtfilt_padlen then Inl FilterInputTooShort
         else Inr (bandpass ev sampling_rate centred))"

subsection \<open>PeakDetector: \<^verbatim>\<open>detect_r_peaks_scipy\<close>, \<^verbatim>\<open>detect_r_peaks\<close>\<close>

definition detect_r_peaks_scipy :: "env \<Rightarrow> real list \<Rightarrow> nat \<Rightarrow> error + int list" where
  "detect_r_peaks_scipy ev ecg_signal sampling_rate =
     (let normalized_signal =
            map (\<lambda>x. (x - np_mean ecg_signal) / (np_std ecg_signal + 1 / 10 ^ 8)) ecg_signal;
          min_distance = int_of_tenths 6 sampling_rate;
          height_threshold = np_percentile ev normalized_signal 75
      in case find_peaks ev normalized_signal (Some height_threshold) min_distance (3 / 10) (Some 1) of
           Inl e \<Rightarrow> Inl e
         | Inr r_peaks1 \<Rightarrow>
             (case (if length r_peaks1 < 3
                    then find_peaks ev normalized_signal
                           (Some (np_percentile ev normalized_signal 60))
                           (int_of_tenths 4 sampling_rate) (1 / 10) None
                    else Inr r_peaks1) of
                Inl e \<Rightarrow> Inl e
              | Inr r_peaks2 \<Rightarrow>
                  (if length r_peaks2 < 3
                   then find_peaks ev normalized_signal None
                          (int_of_tenths 4 sampling_rate) (1 / 10) None
                   else Inr r_peaks2)))"

text \<open>The WFDB detector first; any exception there falls back to the scipy strategies.\<close>

definition candidate_peaks :: "env \<Rightarrow> real list \<Rightarrow> nat \<Rightarrow> error + int list" where
  "candidate_peaks ev ecg_signal sampling_rate =
     (case gqrs_detect ev ecg_signal sampling_rate of
        Some r_peaks \<Rightarrow> Inr r_peaks
      | None \<Rightarrow> detect_r_peaks_scipy ev ecg_signal sampling_rate)"

definition detect_r_peaks :: "env \<Rightarrow> real list \<Rightarrow> nat \<Rightarrow> error + int list" where
  "detect_r_peaks ev ecg_signal sampling_rate =
     (case candidate_peaks ev ecg_signal sampling_rate of
        Inl e \<Rightarrow> Inl e
      | Inr r_peaks \<Rightarrow>
          (let min_distance = int_of_tenths 2 sampling_rate;
               valid_peaks =
                 filter (\<lambda>peak. min_distance \<le> peak \<and> peak < int (length ecg_signal) - min_distance)
                   r_peaks
           in if length valid_peaks = 0 then Inl NoValidPeaks else Inr valid_peaks))"

text \<open>
  The minimum-distance threshold in force on the scipy path: 0.6 of the rate when the
  primary strategy found at least 3 peaks, 0.4 of the rate once a relaxed strategy ran.
\<close>

definition active_min_distance :: "env \<Rightarrow> real list \<Rightarrow> nat \<Rightarrow> int" where
  "active_min_distance ev ecg_signal sampling_rate =
     (let normalized_signal =
            map (\<lambda>x. (x - np_mean ecg_signal) / (np_std ecg_signal + 1 / 10 ^ 8)) ecg_signal
      in case find_peaks ev normalized_signal (Some (np_percentile ev normalized_signal 75))
                (int_of_tenths 6 sampling_rate) (3 / 10) (Some 1) of
           Inr r_peaks1 \<Rightarrow>
             (if length r_peaks1 < 3 then int_of_tenths 4 sampling_rate
              else int_of_tenths 6 sampling_rate)
         | Inl e \<Rightarrow> int_of_tenths 6 sampling_rate)"

text \<open>Consecutive entries at least \<open>d\<close> apart.\<close>

fun separated :: "int \<Rightarrow> int list \<Rightarrow> bool" where
  "separated d [] = True"
| "separated d [x] = True"
| "separated d (x # y # zs) = (x + d \<le> y \<and> separated d (y # zs))"

text \<open>
  What \<^verbatim>\<open>find_peaks\<close> promises about its result: indices in increasing order and, with
  a \<open>distance\<close> argument, neighbouring peaks at least that many samples apart.
\<close>

definition find_peaks_contract :: "env \<Rightarrow> bool" where
  "find_peaks_contract ev =
     (\<forall>x height distance prominence width ps.
        find_peaks ev x height distance prominence width = Inr ps
          \<longrightarrow> sorted_wrt (<) ps \<and> separated distance ps)"

subsection \<open>SegmentExtractor: \<^verbatim>\<open>extract_heartbeat_segments\<close>\<close>

fun extract_heartbeat_segments :: "'a list \<Rightarrow> int list \<Rightarrow> nat \<Rightarrow> 'a list list" where
  "extract_heartbeat_segments ecg_signal [] segment_length = []"
| "extract_heartbeat_segments ecg_signal (r_peak # r_peaks) segment_length =
     (let half_length = int (segment_length div 2);
          start_idx = r_peak - half_length;
          end_idx = r_peak + half_length
      in if start_idx \<ge> 0 \<and> end_idx < int (length ecg_signal)
         then (let segment = py_slice ecg_signal (nat start_idx) (nat end_idx)
               in if length segment = segment_length
                  then segment # extract_heartbeat_segments ecg_signal r_peaks segment_length
                  else extract_heartbeat_segments ecg_signal r_peaks segment_length)
         else extract_heartbeat_segments ecg_signal r_peaks segment_length)"

subsection \<open>SegmentValidator: \<^verbatim>\<open>validate_segments\<close>\<close>

text \<open>
  \<^verbatim>\<open>validate_segments\<close> can be handed any float arrays, so its samples carry the
  non-finite floats the function tests for.
\<close>

datatype sample = Finite real | PosInf | NegInf | NaN

fun isnan :: "sample \<Rightarrow> bool" where
  "isnan NaN = True"
| "isnan s = False"

fun isinf :: "sample \<Rightarrow> bool" where
  "isinf PosInf = True"
| "isinf NegInf = True"
| "isinf s = False"

text \<open>The value of a sample; applied only behind the NaN and infinity tests.\<close>

fun the_real :: "sample \<Rightarrow> real" where
  "the_real (Finite x) = x"
| "the_real s = 0"

text \<open>
  One round of the loop body: \<open>True\<close> when the segment reaches \<^verbatim>\<open>append\<close>, \<open>False\<close> on
  each \<^verbatim>\<open>continue\<close>. On an empty segment \<^verbatim>\<open>np.std\<close> is NaN, so \<^verbatim>\<open>np.std(segment) < 1e-6\<close>
  is false, and \<^verbatim>\<open>np.max\<close> raises \<^verbatim>\<open>ValueError\<close>, which the \<^verbatim>\<open>except\<close> turns into
  \<^verbatim>\<open>continue\<close>.
\<close>

definition segment_passes :: "nat \<Rightarrow> sample list \<Rightarrow> bool" where
  "segment_passes expected_length segment =
     (if length segment \<noteq> expected_length then False
      else if list_ex isnan segment \<or> list_ex isinf segment then False
      else (let xs = map the_real segment
            in if xs \<noteq> [] \<and> np_std xs < 1 / 10 ^ 6 then False
               else (case np_max (map abs xs) of
                       Inl e \<Rightarrow> False
                     | Inr m \<Rightarrow> if m > 100 then False else True)))"

definition validate_segments :: "sample list list \<Rightarrow> nat \<Rightarrow> sample list list" where
  "validate_segments segments expected_length = filter (segment_passes expected_length) segments"

text \<open>
  The acceptance rule in the specification's words. (\<open>np_std\<close> of an empty list is 0 here
  and NaN in numpy: the test \<open>\<ge> 1e-6\<close> fails either way.)
\<close>

definition spec_accepts :: "nat \<Rightarrow> sample list \<Rightarrow> bool" where
  "spec_accepts L segment =
     (length segment = L \<and> \<not> list_ex isnan segment \<and> \<not> list_ex isinf segment \<and>
      1 / 10 ^ 6 \<le> np_std (map the_real segment) \<and>
      list_all (\<lambda>s. \<bar>the_real s\<bar> \<le> 100) segment)"

subsection \<open>Normalizer: the fitted \<^verbatim>\<open>StandardScaler\<close>\<close>

text \<open>The fitted \<^verbatim>\<open>StandardScaler\<close>: its attributes \<^verbatim>\<open>mean_\<close> and \<^verbatim>\<open>scale_\<close>.\<close>

record scaler =
  scaler_mean :: "real list"
  scaler_scale :: "real list"

text \<open>
  Modelled from the spec: \<^verbatim>\<open>scaler.transform\<close> is the pickled scaling transform, which is
  not among the sources. Section 4.5: \<open>output[i][j] = (input[i][j] - mean[j]) / std[j]\<close>,
  failing when the transform's vector length differs from the segment length. The
  arithmetic is over the reals; with mean 0 and scale 1 the floating-point operations
  \<open>x - 0.0\<close> and \<open>x / 1.0\<close> are exact as well.
\<close>

definition scaler_transform :: "scaler \<Rightarrow> real list list \<Rightarrow> error + real list list" where
  "scaler_transform sc X =
     (if length (scaler_scale sc) \<noteq> length (scaler_mean sc) \<or>
         list_ex (\<lambda>row. length row \<noteq> length (scaler_mean sc)) X
      then Inl ShapeMismatch
      else Inr (map (\<lambda>row. map (\<lambda>(x, m, s). (x - m) / s) (zip row (zip (scaler_mean sc) (scaler_scale sc)))) X))"

subsection \<open>The preprocessing pipeline: \<^verbatim>\<open>segment_ecg_beats\<close>\<close>

text \<open>
  The result carries the one warning the claims speak of: \<open>True\<close> when fewer than half
  of the raw segments survived validation. The conditioned signal is finite, so its
  segments enter the validator as finite samples.
  \<^verbatim>\<open>np.array(validated_segments, dtype=np.float32)\<close> converts every sample to a 32-bit
  float before the transform is applied.
\<close>

definition segment_ecg_beats ::
    "env \<Rightarrow> real list \<Rightarrow> scaler \<Rightarrow> nat \<Rightarrow> nat \<Rightarrow> error + (bool \<times> real list list)" where
  "segment_ecg_beats ev continuous_ecg sc segment_length sampling_rate =
     (case preprocess_ecg ev continuous_ecg sampling_rate of
        Inl e \<Rightarrow> Inl e
      | Inr filtered_signal \<Rightarrow>
     (case detect_r_peaks ev filtered_signal sampling_rate of
        Inl e \<Rightarrow> Inl e
      | Inr r_peaks \<Rightarrow>
          if length r_peaks = 0 then Inl NoPeaksDetected
          else (let raw_segments = extract_heartbeat_segments filtered_signal r_peaks segment_length
                in if length raw_segments = 0 then Inl NoSegmentsExtracted
                   else (let validated_segments =
                               map (map the_real)
                                 (validate_segments (map (map Finite) raw_segments) segment_length)
                         in if length validated_segments = 0 then Inl NoValidSegments
                            else (let many_filtered =
                                        (real (length validated_segments)
                                           < real (length raw_segments) * (1 / 2));
                                      segments_array = map (map to_float32) validated_segments
                                  in case scaler_transform sc segments_array of
                                       Inl e \<Rightarrow> Inl e
                                     | Inr normalized_segments \<Rightarrow>
                                         if list_ex (\<lambda>row. length row \<noteq> segment_length)
                                              normalized_segments
                                         then Inl ShapeMismatch
                                         else Inr (many_filtered, normalized_segments))))))"

subsection \<open>Batched classification (app.py, process_ecg_file)\<close>

definition batch_size :: nat where
  "batch_size = 100"

text \<open>
  \<^verbatim>\<open>for i in range(0, len(X_segments), batch_size)\<close>. The state is
  \<^verbatim>\<open>all_predictions\<close>, \<^verbatim>\<open>all_confidences\<close> and, as a trace of the effect, the sizes of the
  batches handed to \<^verbatim>\<open>model.predict\<close>.
\<close>

function predict_batches ::
    "env \<Rightarrow> real list list \<Rightarrow> nat \<Rightarrow> nat list \<times> real list \<times> nat list
       \<Rightarrow> error + (nat list \<times> real list \<times> nat list)" where
  "predict_batches ev X_segments i (all_predictions, all_confidences, calls) =
     (if i < length X_segments
      then (let batch = py_slice X_segments i (i + batch_size);
                batch_predictions = model_predict ev batch
            in case along_rows np_argmax batch_predictions of
                 Inl e \<Rightarrow> Inl e
               | Inr classes \<Rightarrow>
                   (case along_rows np_max batch_predictions of
                      Inl e \<Rightarrow> Inl e
                    | Inr confs \<Rightarrow>
                        predict_batches ev X_segments (i + batch_size)
                          (all_predictions @ classes, all_confidences @ confs,
                           calls @ [length batch])))
      else Inr (all_predictions, all_confidences, calls))"
  by pat_completeness auto
termination
  by (relation "measure (\<lambda>(ev, X, i, acc). length X - i)") (auto simp: batch_size_def)

text \<open>
  Two views of a run of the loop from index \<open>i\<close> on, used to state what it does: the
  probability rows the classifier returned, in call order, and the sizes of the batches
  it was called on.
\<close>

function batch_rows :: "env \<Rightarrow> real list list \<Rightarrow> nat \<Rightarrow> real list list" where
  "batch_rows ev X_segments i =
     (if i < length X_segments
      then model_predict ev (py_slice X_segments i (i + batch_size))
             @ batch_rows ev X_segments (i + batch_size)
      else [])"
  by pat_completeness auto
termination
  by (relation "measure (\<lambda>(ev, X, i). length X - i)") (auto simp: batch_size_def)

function batch_calls :: "real list list \<Rightarrow> nat \<Rightarrow> nat list" where
  "batch_calls X_segments i =
     (if i < length X_segments
      then length (py_slice X_segments i (i + batch_size)) # batch_calls X_segments (i + batch_size)
      else [])"
  by pat_completeness auto
termination
  by (relation "measure (\<lambda>(X, i). length X - i)") (auto simp: batch_size_def)

subsection \<open>Aggregator: confidence and per-class distribution\<close>

record class_stats =
  segment_count :: nat
  percentage :: real
  avg_confidence :: real

record diagnosis =
  predicted_diagnosis :: string
  overall_confidence :: real
  total_heartbeats :: nat
  continuous_samples :: nat
  segment_distribution :: "(string \<times> class_stats) list"
  majority_vote_count :: nat

text \<open>
  \<^verbatim>\<open>[conf for i, conf in enumerate(segment_confidences) if segment_classes[i] == c]\<close>;
  both arrays are extended batch by batch from the same rows and have one length.
\<close>

definition confidences_of :: "nat list \<Rightarrow> real list \<Rightarrow> nat \<Rightarrow> real list" where
  "confidences_of segment_classes segment_confidences c =
     map snd (filter (\<lambda>(cls, conf). cls = c) (zip segment_classes segment_confidences))"

text \<open>\<^verbatim>\<open>np.mean(values) if values else 0.0\<close>\<close>

definition mean_or_zero :: "real list \<Rightarrow> real" where
  "mean_or_zero vals = (if vals = [] then 0 else np_mean vals)"

text \<open>\<^verbatim>\<open>d[k] = v\<close> on a dict: a key already present keeps its place.\<close>

fun dict_set :: "('k \<times> 'v) list \<Rightarrow> 'k \<Rightarrow> 'v \<Rightarrow> ('k \<times> 'v) list" where
  "dict_set [] k v = [(k, v)]"
| "dict_set ((k', v') # kvs) k v =
     (if k' = k then (k, v) # kvs else (k', v') # dict_set kvs k v)"

text \<open>The loop \<^verbatim>\<open>for class_idx_loop, vote_count in class_votes.items()\<close>.\<close>

fun distribution_loop ::
    "(nat \<Rightarrow> string option) \<Rightarrow> nat list \<Rightarrow> real list \<Rightarrow> (nat \<times> nat) list
       \<Rightarrow> (string \<times> class_stats) list \<Rightarrow> error + (string \<times> class_stats) list" where
  "distribution_loop class_mapping segment_classes segment_confidences [] seg_dist = Inr seg_dist"
| "distribution_loop class_mapping segment_classes segment_confidences
       ((class_idx_loop, vote_count) # items) seg_dist =
     (case class_mapping class_idx_loop of
        None \<Rightarrow> Inl (KeyError class_idx_loop)
      | Some diagnosis_name \<Rightarrow>
          (let avg = mean_or_zero (confidences_of segment_classes segment_confidences class_idx_loop);
               total_segments = length segment_classes
           in distribution_loop class_mapping segment_classes segment_confidences items
                (dict_set seg_dist diagnosis_name
                   \<lparr>segment_count = vote_count,
                    percentage =
                      (if total_segments > 0
                       then py_round ((real vote_count / real total_segments) * 100) 2 else 0),
                    avg_confidence = py_round avg 4\<rparr>)))"


definition aggregate ::
    "(nat \<Rightarrow> string option) \<Rightarrow> nat \<Rightarrow> nat list \<Rightarrow> real list \<Rightarrow> error + diagnosis" where
  "aggregate class_mapping n_samples segment_classes segment_confidences =
     (let class_votes = Counter segment_classes
      in case final_class_idx segment_classes of
           Inl e \<Rightarrow> Inl e
         | Inr final \<Rightarrow>
        (case class_mapping final of
           None \<Rightarrow> Inl (KeyError final)
         | Some final_diagnosis \<Rightarrow>
             (let majority_segments = votes_get class_votes final;
                  majority_confidence =
                    mean_or_zero (confidences_of segment_classes segment_confidences final)
              in case distribution_loop class_mapping segment_classes segment_confidences
                        class_votes [] of
                   Inl e \<Rightarrow> Inl e
                 | Inr seg_dist \<Rightarrow>
                     Inr \<lparr>predicted_diagnosis = final_diagnosis,
                          overall_confidence = py_round majority_confidence 4,
                          total_heartbeats = length segment_classes,
                          continuous_samples = n_samples,
                          segment_distribution = seg_dist,
                          majority_vote_count = majority_segments\<rparr>)))"

text \<open>
  \<^verbatim>\<open>process_ecg_file\<close> from the cleaned signal on: segmentation at the default rate of
  360 Hz with 250-sample segments, batched classification, aggregation.
\<close>

definition process_ecg_file ::
    "env \<Rightarrow> scaler \<Rightarrow> (nat \<Rightarrow> string option) \<Rightarrow> real list \<Rightarrow> error + diagnosis" where
  "process_ecg_file ev sc class_mapping continuous_ecg =
     (if length continuous_ecg = 0 then Inl EmptySequence
      else case segment_ecg_beats ev continuous_ecg sc 250 360 of
             Inl e \<Rightarrow> Inl e
           | Inr (many_filtered, heartbeat_segments) \<Rightarrow>
               if length heartbeat_segments = 0 then Inl NoSegmentsExtracted
               else (case predict_batches ev heartbeat_segments 0 ([], [], []) of
                       Inl e \<Rightarrow> Inl e
                     | Inr (segment_classes, segment_confidences, calls) \<Rightarrow>
                         aggregate class_mapping (length continuous_ecg)
                           segment_classes segment_confidences))"

subsection \<open>Concrete environments for the worked examples\<close>

text \<open>
  An environment whose detectors report fixed candidates: the WFDB detector when
  \<open>wfdb\<close> is set, otherwise \<^verbatim>\<open>find_peaks\<close>, which honours its \<open>distance\<close> argument by
  reporting nothing when the candidates are closer than that. The filter leaves the
  signal as it is and the classifier is a two-class one that reads a segment's first
  sample \<open>x\<close> as the probability of class 0: the row is \<open>[x, 1 - x]\<close>.
\<close>

definition fixed_env :: "bool \<Rightarrow> int list \<Rightarrow> env" where
  "fixed_env wfdb cands =
     \<lparr>gqrs_detect = (\<lambda>x rate. if wfdb then Some cands else None),
      find_peaks = (\<lambda>x height distance prominence width.
                      Inr (if sorted_wrt (<) cands \<and> separated distance cands then cands else [])),
      np_percentile = (\<lambda>x q. 0),
      bandpass = (\<lambda>rate x. x),
      model_predict = map (\<lambda>seg. case seg of [] \<Rightarrow> [1 / 2, 1 / 2] | x # rest \<Rightarrow> [x, 1 - x])\<rparr>"


section \<open>Verification\<close>

lemma counter_add_keys:
  "map fst (counter_add kvs c) = (if c \<in> fst ` set kvs then map fst kvs else map fst kvs @ [c])"
  by (induction kvs c rule: counter_add.induct) auto

subsection \<open>Aggregator: the majority class\<close>

lemma counter_add_map_of:
  "map_of (counter_add kvs c) k =
     (if k = c then Some (case map_of kvs c of None \<Rightarrow> 1 | Some n \<Rightarrow> Suc n) else map_of kvs k)"
  by (induction kvs c rule: counter_add.induct) auto

lemma foldl_counter_keys_set:
  "fst ` set (foldl counter_add acc xs) = fst ` set acc \<union> set xs"
proof (induction xs arbitrary: acc)
  case Nil
  then show ?case by simp
next
  case (Cons x xs)
  have "fst ` set (counter_add acc x) = insert x (fst ` set acc)"
    by (induction acc x rule: counter_add.induct) auto
  with Cons show ?case by auto
qed

lemma Counter_keys_set: "set (map fst (Counter xs)) = set xs"
  using foldl_counter_keys_set [of "[]" xs] by (simp add: Counter_def)

lemma Counter_snoc: "Counter (xs @ [x]) = counter_add (Counter xs) x"
  by (simp add: Counter_def)

lemma Counter_map_of:
  "map_of (Counter xs) c = (if c \<in> set xs then Some (count_list xs c) else None)"
proof (induction xs rule: rev_induct)
  case Nil
  show ?case by (simp add: Counter_def)
next
  case (snoc x xs)
  show ?case
  proof (cases "c = x")
    case True
    with snoc have "map_of (Counter xs) x = (if x \<in> set xs then Some (count_list xs x) else None)"
      by simp
    with True show ?thesis
      by (simp add: Counter_snoc counter_add_map_of)
  next
    case False
    with snoc show ?thesis
      by (simp add: Counter_snoc counter_add_map_of)
  qed
qed

lemma votes_get_Counter: "votes_get (Counter xs) c = count_list xs c"
  by (simp add: votes_get_def Counter_map_of)

lemma Counter_keys_snoc:
  "map fst (Counter (xs @ [x])) = map fst (Counter xs) @ (if x \<in> set xs then [] else [x])"
  using Counter_keys_set [of xs] by (simp add: Counter_snoc counter_add_keys)

lemma Counter_keys_before:
  "set (takeWhile (\<lambda>k. k \<noteq> c) (map fst (Counter xs))) = set (takeWhile (\<lambda>k. k \<noteq> c) xs)"
proof (induction xs rule: rev_induct)
  case Nil
  show ?case by (simp add: Counter_def)
next
  case (snoc x xs)
  let ?P = "\<lambda>k. k \<noteq> c"
  let ?ks = "map fst (Counter xs)"
  let ?new = "if x \<in> set xs then [] else [x]"
  have keys: "map fst (Counter (xs @ [x])) = ?ks @ ?new"
    by (rule Counter_keys_snoc)
  show ?case
  proof (cases "c \<in> set xs")
    case True
    then have ck: "c \<in> set ?ks" using Counter_keys_set [of xs] by simp
    have "takeWhile ?P (xs @ [x]) = takeWhile ?P xs"
      using takeWhile_append1 [of c xs ?P "[x]"] True by simp
    moreover have "takeWhile ?P (?ks @ ?new) = takeWhile ?P ?ks"
      using takeWhile_append1 [of c ?ks ?P ?new] ck by simp
    ultimately show ?thesis using snoc keys by simp
  next
    case False
    then have nk: "c \<notin> set ?ks" using Counter_keys_set [of xs] by simp
    have a: "takeWhile ?P (xs @ [x]) = xs @ takeWhile ?P [x]"
      by (rule takeWhile_append2) (use False in auto)
    have b: "takeWhile ?P (?ks @ ?new) = ?ks @ takeWhile ?P ?new"
      by (rule takeWhile_append2) (use nk in auto)
    have "set (?ks @ takeWhile ?P ?new) = set (xs @ takeWhile ?P [x])"
      using Counter_keys_set [of xs] by auto
    then show ?thesis using a b keys by simp
  qed
qed

lemma max_scan_props:
  "max_scan key b xs \<in> set (b # xs) \<and>
   (\<forall>k \<in> set (b # xs). key k \<le> key (max_scan key b xs)) \<and>
   (\<forall>k \<in> set (takeWhile (\<lambda>k. k \<noteq> max_scan key b xs) (b # xs)). key k < key (max_scan key b xs))"
proof (induction xs arbitrary: b)
  case Nil
  show ?case by simp
next
  case (Cons x xs)
  let ?b' = "if key b < key x then x else b"
  let ?r = "max_scan key ?b' xs"
  have r: "max_scan key b (x # xs) = ?r" by simp
  note IH = Cons [of ?b']
  show ?case
    unfolding r using IH
    by (auto split: if_splits)
qed


lemma first_pos_less:
  assumes "c \<in> set xs" and "c' \<notin> set (takeWhile (\<lambda>x. x \<noteq> c) xs)" and "c' \<noteq> c"
  shows "first_pos xs c < first_pos xs c'"
  using assms unfolding first_pos_def
  by (induction xs) (auto split: if_splits)

text \<open>
  Claim C1, as the code has it. For every non-empty sequence of per-segment predictions
  the chosen class has the highest vote count; when several classes share the highest
  count, the one whose first occurrence in the prediction sequence comes earliest is
  chosen (the \<^verbatim>\<open>Counter\<close> is walked in insertion order and only a strictly greater
  count replaces the current best), not the one with the lowest class index.
\<close>

theorem majority_first_seen:
  assumes "segment_classes \<noteq> []"
  shows "\<exists>c. final_class_idx segment_classes = Inr c \<and> c \<in> set segment_classes \<and>
           (\<forall>c'. count_list segment_classes c' \<le> count_list segment_classes c) \<and>
           (\<forall>c'. c' \<noteq> c \<and> count_list segment_classes c' = count_list segment_classes c
                 \<longrightarrow> first_pos segment_classes c < first_pos segment_classes c')"
proof -
  let ?cv = "Counter segment_classes"
  let ?ks = "map fst ?cv"
  let ?key = "votes_get ?cv"
  have key: "?key k = count_list segment_classes k" for k
    by (rule votes_get_Counter)
  have "set ?ks = set segment_classes" by (rule Counter_keys_set)
  with assms have "?ks \<noteq> []" by auto
  then obtain b rest where ks: "?ks = b # rest" by (cases ?ks) auto
  let ?r = "max_scan ?key b rest"
  have fin: "final_class_idx segment_classes = Inr ?r"
    by (simp add: final_class_idx_def py_max_key_def ks Let_def)
  note P = max_scan_props [of ?key b rest]
  have mem: "?r \<in> set segment_classes"
    using P ks Counter_keys_set [of segment_classes] by metis
  have top: "count_list segment_classes c' \<le> count_list segment_classes ?r" for c'
  proof (cases "c' \<in> set segment_classes")
    case True
    then have "c' \<in> set (b # rest)" using ks Counter_keys_set [of segment_classes] by metis
    with P have "?key c' \<le> ?key ?r" by blast
    then show ?thesis by (simp add: key)
  next
    case False
    then show ?thesis by (simp add: count_list_0_iff)
  qed
  have tie: "first_pos segment_classes ?r < first_pos segment_classes c'"
    if "c' \<noteq> ?r" and "count_list segment_classes c' = count_list segment_classes ?r" for c'
  proof -
    have "c' \<notin> set (takeWhile (\<lambda>k. k \<noteq> ?r) (b # rest))"
      using P that(2) key by (metis less_irrefl)
    then have "c' \<notin> set (takeWhile (\<lambda>k. k \<noteq> ?r) segment_classes)"
      using Counter_keys_before [of ?r segment_classes] ks by metis
    from mem this that(1) show ?thesis by (rule first_pos_less)
  qed
  show ?thesis using fin mem top tie by blast
qed

theorem majority_first_seen_witness:
  "[2, 1, 1, 2, 0] \<noteq> ([] :: nat list) \<and> final_class_idx [2, 1, 1, 2, 0] = Inr 2 \<and>
   first_pos [2, 1, 1, 2, 0] 2 < first_pos [2, 1, 1, 2, 0] 1"
  using majority_first_seen [of "[2, 1, 1, 2, 0]"]
  by (simp add: final_class_idx_def Counter_def py_max_key_def votes_get_def first_pos_def)

text \<open>
  The predictions \<open>[1, 0]\<close> give one vote each to classes 1 and 0; the code chooses
  class 1, seen first, although class 0 has the same count and the lower index.
\<close>

theorem majority_lowest_index_counterexample:
  "final_class_idx [1, 0] = Inr 1 \<and>
   count_list [1, 0] (0 :: nat) = count_list [1, 0 :: nat] 1 \<and> (0 :: nat) < 1"
  by (simp add: final_class_idx_def Counter_def py_max_key_def votes_get_def)

subsection \<open>SegmentExtractor\<close>

lemma py_slice_length:
  "e \<le> length xs \<Longrightarrow> length (py_slice xs s e) = e - s"
  by (simp add: py_slice_def)

lemma extract_length_le:
  "length (extract_heartbeat_segments ecg_signal r_peaks L) \<le> length r_peaks"
  by (induction r_peaks) (auto simp: Let_def)

lemma window_length:
  assumes "0 \<le> p - int h" and "p + int h < int (length xs)"
  shows "length (py_slice xs (nat (p - int h)) (nat (p + int h))) = 2 * h"
proof -
  have "nat (p + int h) \<le> length xs" using assms by linarith
  then have "length (py_slice xs (nat (p - int h)) (nat (p + int h))) = nat (p + int h) - nat (p - int h)"
    by (rule py_slice_length)
  also have "\<dots> = 2 * h" using assms by linarith
  finally show ?thesis .
qed

lemma extract_as_filter:
  "extract_heartbeat_segments ecg_signal r_peaks L =
     map (\<lambda>p. py_slice ecg_signal (nat (p - int (L div 2))) (nat (p + int (L div 2))))
       (filter (\<lambda>p. 0 \<le> p - int (L div 2) \<and> p + int (L div 2) < int (length ecg_signal) \<and> even L)
          r_peaks)"
proof (induction r_peaks)
  case Nil
  show ?case by simp
next
  case (Cons p ps)
  show ?case
  proof (cases "0 \<le> p - int (L div 2) \<and> p + int (L div 2) < int (length ecg_signal)")
    case True
    then have "length (py_slice ecg_signal (nat (p - int (L div 2))) (nat (p + int (L div 2)))) = 2 * (L div 2)"
      using window_length [of p "L div 2" ecg_signal] by simp
    moreover have "(2 * (L div 2) = L) = even L" by presburger
    ultimately show ?thesis using True Cons by (simp add: Let_def)
  next
    case False
    then show ?thesis using Cons by (auto simp add: Let_def)
  qed
qed

text \<open>
  Claim C7 on the code. A window \<open>[p - L/2, p + L/2)\<close> whose end is the signal's end lies
  within the signal, and the claim keeps it; the guard \<^verbatim>\<open>end_idx < len(ecg_signal)\<close>
  drops it. With 250 samples and the peak at 125 the window is the whole signal and
  nothing is extracted.
\<close>

theorem extract_drops_window_at_signal_end:
  "0 \<le> 125 - int (250 div 2) \<and> 125 + int (250 div 2) = int (length (replicate 250 (0 :: real))) \<and>
   extract_heartbeat_segments (replicate 250 (0 :: real)) [125] 250 = []"
  by (simp add: Let_def)

subsection \<open>PeakDetector and the boundary margin\<close>

lemma detect_r_peaks_Inr:
  assumes "detect_r_peaks ev ecg_signal rate = Inr ps"
  shows "\<exists>cands. candidate_peaks ev ecg_signal rate = Inr cands \<and>
           ps = filter (\<lambda>peak. int_of_tenths 2 rate \<le> peak \<and>
                                peak < int (length ecg_signal) - int_of_tenths 2 rate) cands \<and>
           ps \<noteq> []"
  using assms
  by (auto simp: detect_r_peaks_def Let_def split: sum.splits if_splits)

text \<open>
  Claim C2, as the code has it. Every peak of a returned PeakSet satisfies
  \<open>margin \<le> p < length - margin\<close>, and the extractor never yields more segments than
  peaks. A full window for every remaining peak follows only when the margin is at least
  \<open>L/2\<close> (and \<open>L\<close> is even): then the number of segments equals the size of the
  PeakSet and every window lies within the signal.
\<close>

theorem margin_full_windows:
  assumes "detect_r_peaks ev ecg_signal rate = Inr ps"
  shows "(\<forall>p \<in> set ps. int_of_tenths 2 rate \<le> p \<and> p < int (length ecg_signal) - int_of_tenths 2 rate) \<and>
         length (extract_heartbeat_segments ecg_signal ps L) \<le> length ps \<and>
         (even L \<and> int (L div 2) \<le> int_of_tenths 2 rate \<longrightarrow>
            length (extract_heartbeat_segments ecg_signal ps L) = length ps \<and>
            (\<forall>p \<in> set ps. 0 \<le> p - int (L div 2) \<and> p + int (L div 2) \<le> int (length ecg_signal)))"
proof -
  let ?m = "int_of_tenths 2 rate"
  obtain cands where ps: "ps = filter (\<lambda>peak. ?m \<le> peak \<and> peak < int (length ecg_signal) - ?m) cands"
    using detect_r_peaks_Inr [OF assms] by blast
  have margin: "\<forall>p \<in> set ps. ?m \<le> p \<and> p < int (length ecg_signal) - ?m"
    unfolding ps by simp
  have le: "length (extract_heartbeat_segments ecg_signal ps L) \<le> length ps"
    by (rule extract_length_le)
  have full: "length (extract_heartbeat_segments ecg_signal ps L) = length ps \<and>
            (\<forall>p \<in> set ps. 0 \<le> p - int (L div 2) \<and> p + int (L div 2) \<le> int (length ecg_signal))"
    if "even L" and "int (L div 2) \<le> ?m"
  proof -
    have all: "\<forall>p \<in> set ps. 0 \<le> p - int (L div 2) \<and> p + int (L div 2) < int (length ecg_signal) \<and> even L"
      using margin that by fastforce
    then have "filter (\<lambda>p. 0 \<le> p - int (L div 2) \<and> p + int (L div 2) < int (length ecg_signal) \<and> even L) ps = ps"
      by (simp add: filter_id_conv)
    then have "length (extract_heartbeat_segments ecg_signal ps L) = length ps"
      by (simp add: extract_as_filter)
    with all show ?thesis by fastforce
  qed
  show ?thesis using margin le full by blast
qed

theorem margin_full_windows_witness:
  "detect_r_peaks (fixed_env True [100, 400]) (replicate 1000 0) 360 = Inr [100, 400] \<and>
   even (100 :: nat) \<and> int (100 div 2) \<le> int_of_tenths 2 360 \<and>
   length (extract_heartbeat_segments (replicate 1000 (0 :: real)) [100, 400] 100) = 2"
  using margin_full_windows [of "fixed_env True [100, 400]" "replicate 1000 0" 360 "[100, 400]" 100]
  by (simp add: detect_r_peaks_def candidate_peaks_def fixed_env_def int_of_tenths_def Let_def)

text \<open>
  At the defaults the margin is 72 samples and half a window is 125: a peak at sample 100
  of a 1000-sample signal survives the boundary filter and loses its window.
\<close>

theorem margin_full_windows_counterexample:
  "int_of_tenths 2 360 = 72 \<and>
   detect_r_peaks (fixed_env True [100]) (replicate 1000 0) 360 = Inr [100] \<and>
   extract_heartbeat_segments (replicate 1000 (0 :: real)) [100] 250 = []"
  by (simp add: detect_r_peaks_def candidate_peaks_def fixed_env_def int_of_tenths_def Let_def)

lemma separated_pairwise:
  "(sorted_wrt (<) ps \<and> separated d ps) = sorted_wrt (\<lambda>x y. x < y \<and> x + d \<le> y) ps"
proof (induction d ps rule: separated.induct)
  case (1 d)
  show ?case by simp
next
  case (2 d x)
  show ?case by simp
next
  case (3 d x y zs)
  then show ?case by fastforce
qed

lemma separated_filter:
  assumes "sorted_wrt (<) ps" and "separated d ps"
  shows "sorted_wrt (<) (filter P ps) \<and> separated d (filter P ps)"
proof -
  have "sorted_wrt (\<lambda>x y. x < y \<and> x + d \<le> y) ps"
    using assms separated_pairwise [of ps d] by simp
  then have "sorted_wrt (\<lambda>x y. x < y \<and> x + d \<le> y) (filter P ps)"
    by (rule sorted_wrt_filter)
  then show ?thesis using separated_pairwise [of "filter P ps" d] by simp
qed

lemma scipy_separated:
  assumes c: "find_peaks_contract ev"
      and r: "detect_r_peaks_scipy ev ecg_signal rate = Inr cands"
  shows "sorted_wrt (<) cands \<and> separated (active_min_distance ev ecg_signal rate) cands"
proof -
  have fp: "sorted_wrt (<) ps \<and> separated distance ps"
    if "find_peaks ev x height distance prominence width = Inr ps"
    for x height distance prominence width ps
    using c that unfolding find_peaks_contract_def by blast
  show ?thesis
    using r
    unfolding detect_r_peaks_scipy_def active_min_distance_def Let_def
    by (auto split: sum.splits if_splits dest: fp)
qed

text \<open>
  Claim C3, as the code has it. A returned PeakSet is non-empty and is the
  order-preserving subsequence of the chosen detector's candidates that satisfy
  \<open>margin \<le> p < length - margin\<close> (the filter of the candidates by that test): whatever
  strict order and separation the candidates have, the PeakSet has too. On the scipy path
  (the WFDB detector unavailable), \<^verbatim>\<open>find_peaks\<close> keeps its promise about \<open>distance\<close>, so
  the PeakSet is strictly increasing with consecutive entries at least the active
  threshold apart. Nothing in the code separates the WFDB detector's peaks.
\<close>

theorem peakset_invariant:
  assumes "detect_r_peaks ev ecg_signal rate = Inr ps"
  shows "ps \<noteq> [] \<and>
         (\<exists>cands. candidate_peaks ev ecg_signal rate = Inr cands \<and>
            ps = filter (\<lambda>peak. int_of_tenths 2 rate \<le> peak \<and>
                            peak < int (length ecg_signal) - int_of_tenths 2 rate) cands) \<and>
         (\<forall>p \<in> set ps. int_of_tenths 2 rate \<le> p \<and> p < int (length ecg_signal) - int_of_tenths 2 rate) \<and>
         (\<forall>cands d. candidate_peaks ev ecg_signal rate = Inr cands \<and>
                     sorted_wrt (<) cands \<and> separated d cands
                       \<longrightarrow> sorted_wrt (<) ps \<and> separated d ps) \<and>
         (gqrs_detect ev ecg_signal rate = None \<and> find_peaks_contract ev
            \<longrightarrow> sorted_wrt (<) ps \<and> separated (active_min_distance ev ecg_signal rate) ps)"
proof -
  let ?m = "int_of_tenths 2 rate"
  let ?P = "\<lambda>peak. ?m \<le> peak \<and> peak < int (length ecg_signal) - ?m"
  obtain cands where cands: "candidate_peaks ev ecg_signal rate = Inr cands"
    and ps: "ps = filter ?P cands" and ne: "ps \<noteq> []"
    using detect_r_peaks_Inr [OF assms] by blast
  have margin: "\<forall>p \<in> set ps. ?m \<le> p \<and> p < int (length ecg_signal) - ?m"
    unfolding ps by simp
  have keep: "sorted_wrt (<) ps \<and> separated d ps"
    if "candidate_peaks ev ecg_signal rate = Inr cs" and "sorted_wrt (<) cs" and "separated d cs"
    for cs d
  proof -
    from that(1) cands have "cs = cands" by simp
    with that(2,3) show ?thesis unfolding ps by (simp add: separated_filter)
  qed
  have scipy: "sorted_wrt (<) ps \<and> separated (active_min_distance ev ecg_signal rate) ps"
    if "gqrs_detect ev ecg_signal rate = None" and "find_peaks_contract ev"
  proof -
    from that(1) cands have "detect_r_peaks_scipy ev ecg_signal rate = Inr cands"
      by (simp add: candidate_peaks_def)
    with that(2) have "sorted_wrt (<) cands \<and> separated (active_min_distance ev ecg_signal rate) cands"
      by (rule scipy_separated)
    with cands show ?thesis using keep by blast
  qed
  have sub: "\<exists>cands. candidate_peaks ev ecg_signal rate = Inr cands \<and> ps = filter ?P cands"
    using cands ps by blast
  show ?thesis using ne sub margin keep scipy by blast
qed

lemma fixed_env_contract: "find_peaks_contract (fixed_env w cands)"
  by (simp add: find_peaks_contract_def fixed_env_def)

theorem peakset_invariant_witness:
  "detect_r_peaks (fixed_env False [100, 400, 700, 990]) (replicate 1000 0) 360 = Inr [100, 400, 700] \<and>
   gqrs_detect (fixed_env False [100, 400, 700, 990]) (replicate 1000 0) 360 = None \<and>
   find_peaks_contract (fixed_env False [100, 400, 700, 990]) \<and>
   active_min_distance (fixed_env False [100, 400, 700, 990]) (replicate 1000 0) 360 = 216 \<and>
   separated 216 [100, 400, 700]"
  using peakset_invariant [of "fixed_env False [100, 400, 700, 990]" "replicate 1000 0" 360 "[100, 400, 700]"]
    fixed_env_contract [of False "[100, 400, 700, 990]"]
  by (simp add: detect_r_peaks_def candidate_peaks_def detect_r_peaks_scipy_def
        active_min_distance_def fixed_env_def int_of_tenths_def Let_def)

text \<open>
  A WFDB detector reporting beats 127 samples apart (about 170 beats a minute at 360 Hz):
  both pass the boundary filter and are closer than the relaxed threshold of 144.
\<close>

theorem wfdb_peakset_counterexample:
  "detect_r_peaks (fixed_env True [200, 327]) (replicate 1000 0) 360 = Inr [200, 327] \<and>
   int_of_tenths 4 360 = 144 \<and> \<not> separated 144 [200, 327]"
  by (simp add: detect_r_peaks_def candidate_peaks_def fixed_env_def int_of_tenths_def Let_def)

subsection \<open>Short signals\<close>

text \<open>
  Claim C4, as the code has it, for a filter that keeps the signal's length. A signal
  shorter than \<open>2 * margin + 1\<close> samples never gets a PeakSet. With at most 27 samples
  it fails earlier, in the zero-phase filter of the SignalConditioner. With more than 27
  it passes the filter and fails in peak detection: with the error of the detector if
  the scipy fallback raised, and otherwise, no candidate satisfying
  \<open>margin \<le> p < length - margin\<close>, with the no-peaks error.
\<close>

theorem short_signal_fails:
  assumes len: "\<forall>x. length (bandpass ev rate x) = length x"
      and short: "int (length continuous_ecg) < 2 * int_of_tenths 2 rate + 1"
  shows "(length continuous_ecg \<le> filtfilt_padlen \<longrightarrow>
            segment_ecg_beats ev continuous_ecg sc L rate = Inl FilterInputTooShort) \<and>
         (filtfilt_padlen < length continuous_ecg \<longrightarrow>
            (\<exists>filtered. preprocess_ecg ev continuous_ecg rate = Inr filtered \<and>
               (case candidate_peaks ev filtered rate of
                  Inl e \<Rightarrow> segment_ecg_beats ev continuous_ecg sc L rate = Inl e
                | Inr cands \<Rightarrow> segment_ecg_beats ev continuous_ecg sc L rate = Inl NoValidPeaks)))"
proof -
  let ?centred = "map (\<lambda>x. x - np_mean continuous_ecg) continuous_ecg"
  let ?filtered = "bandpass ev rate ?centred"
  have early: "segment_ecg_beats ev continuous_ecg sc L rate = Inl FilterInputTooShort"
    if "length continuous_ecg \<le> filtfilt_padlen"
    using that by (simp add: segment_ecg_beats_def preprocess_ecg_def)
  have late: "\<exists>filtered. preprocess_ecg ev continuous_ecg rate = Inr filtered \<and>
               (case candidate_peaks ev filtered rate of
                  Inl e \<Rightarrow> segment_ecg_beats ev continuous_ecg sc L rate = Inl e
                | Inr cands \<Rightarrow> segment_ecg_beats ev continuous_ecg sc L rate = Inl NoValidPeaks)"
    if long: "filtfilt_padlen < length continuous_ecg"
  proof -
    have pre: "preprocess_ecg ev continuous_ecg rate = Inr ?filtered"
      using long by (simp add: preprocess_ecg_def)
    have flen: "length ?filtered = length continuous_ecg" using len by simp
    have none: "filter (\<lambda>peak. int_of_tenths 2 rate \<le> peak \<and>
                    peak < int (length ?filtered) - int_of_tenths 2 rate) cands = []" for cands
      using short flen by (auto simp: filter_empty_conv)
    have "case candidate_peaks ev ?filtered rate of
            Inl e \<Rightarrow> segment_ecg_beats ev continuous_ecg sc L rate = Inl e
          | Inr cands \<Rightarrow> segment_ecg_beats ev continuous_ecg sc L rate = Inl NoValidPeaks"
      using none
      by (simp add: segment_ecg_beats_def pre detect_r_peaks_def Let_def split: sum.splits)
    with pre show ?thesis by blast
  qed
  show ?thesis using early late by blast
qed

theorem short_signal_fails_witness:
  "(\<forall>x. length (bandpass (fixed_env True [50]) 360 x) = length x) \<and>
   int (length (replicate 100 (0 :: real))) < 2 * int_of_tenths 2 360 + 1 \<and>
   filtfilt_padlen < length (replicate 100 (0 :: real)) \<and>
   segment_ecg_beats (fixed_env True [50]) (replicate 100 0) \<lparr>scaler_mean = [], scaler_scale = []\<rparr> 250 360
     = Inl NoValidPeaks"
proof -
  let ?ev = "fixed_env True [50]"
  have a: "\<forall>x. length (bandpass ?ev 360 x) = length x" by (simp add: fixed_env_def)
  have b: "int (length (replicate 100 (0 :: real))) < 2 * int_of_tenths 2 360 + 1"
    by (simp add: int_of_tenths_def)
  have c: "filtfilt_padlen < length (replicate 100 (0 :: real))" by (simp add: filtfilt_padlen_def)
  have d: "candidate_peaks ?ev filtered 360 = Inr [50]" for filtered
    by (simp add: candidate_peaks_def fixed_env_def)
  from short_signal_fails [OF a b, of "\<lparr>scaler_mean = [], scaler_scale = []\<rparr>" 250] c
  have "segment_ecg_beats ?ev (replicate 100 0) \<lparr>scaler_mean = [], scaler_scale = []\<rparr> 250 360 = Inl NoValidPeaks"
    by (auto simp: d)
  with a b c show ?thesis by blast
qed

text \<open>
  Ten samples at 360 Hz are fewer than \<open>2 * 72 + 1\<close>; the pipeline fails in the filter,
  before any peak is looked for.
\<close>

theorem short_signal_counterexample:
  "int (length (replicate 10 (0 :: real))) < 2 * int_of_tenths 2 360 + 1 \<and>
   segment_ecg_beats (fixed_env True [5]) (replicate 10 0) \<lparr>scaler_mean = [], scaler_scale = []\<rparr> 250 360
     = Inl FilterInputTooShort"
  by (simp add: segment_ecg_beats_def preprocess_ecg_def filtfilt_padlen_def int_of_tenths_def)

subsection \<open>Batched classification\<close>

declare predict_batches.simps [simp del] batch_rows.simps [simp del] batch_calls.simps [simp del]

lemma argmax_scan_props:
  assumes "i = length pre" and "bi < i" and "bv = pre ! bi"
      and "\<forall>j < i. pre ! j \<le> bv" and "\<forall>j < bi. pre ! j < bv"
  shows "argmax_scan bi bv i vs < length (pre @ vs) \<and>
         (\<forall>j < length (pre @ vs). (pre @ vs) ! j \<le> (pre @ vs) ! argmax_scan bi bv i vs) \<and>
         (\<forall>j < argmax_scan bi bv i vs. (pre @ vs) ! j < (pre @ vs) ! argmax_scan bi bv i vs)"
  using assms
proof (induction vs arbitrary: pre bi bv i)
  case Nil
  then show ?case by simp
next
  case (Cons v vs)
  let ?pre = "pre @ [v]"
  show ?case
  proof (cases "bv < v")
    case True
    have "argmax_scan i v (Suc i) vs < length (?pre @ vs) \<and>
         (\<forall>j < length (?pre @ vs). (?pre @ vs) ! j \<le> (?pre @ vs) ! argmax_scan i v (Suc i) vs) \<and>
         (\<forall>j < argmax_scan i v (Suc i) vs. (?pre @ vs) ! j < (?pre @ vs) ! argmax_scan i v (Suc i) vs)"
    proof (rule Cons.IH)
      show "Suc i = length ?pre" using Cons.prems by simp
      show "i < Suc i" by simp
      show "v = ?pre ! i" using Cons.prems by simp
      show "\<forall>j < Suc i. ?pre ! j \<le> v"
        using Cons.prems True by (auto simp: nth_append less_Suc_eq)
      show "\<forall>j < i. ?pre ! j < v"
        using Cons.prems True by (auto simp: nth_append)
    qed
    with True show ?thesis by simp
  next
    case False
    have "argmax_scan bi bv (Suc i) vs < length (?pre @ vs) \<and>
         (\<forall>j < length (?pre @ vs). (?pre @ vs) ! j \<le> (?pre @ vs) ! argmax_scan bi bv (Suc i) vs) \<and>
         (\<forall>j < argmax_scan bi bv (Suc i) vs. (?pre @ vs) ! j < (?pre @ vs) ! argmax_scan bi bv (Suc i) vs)"
    proof (rule Cons.IH)
      show "Suc i = length ?pre" using Cons.prems by simp
      show "bi < Suc i" using Cons.prems by simp
      show "bv = ?pre ! bi" using Cons.prems by (simp add: nth_append)
      show "\<forall>j < Suc i. ?pre ! j \<le> bv"
        using Cons.prems False by (auto simp: nth_append less_Suc_eq)
      show "\<forall>j < bi. ?pre ! j < bv"
        using Cons.prems by (auto simp: nth_append)
    qed
    with False show ?thesis by simp
  qed
qed

lemma np_argmax_props:
  assumes "np_argmax row = Inr k"
  shows "k < length row \<and> (\<forall>j < length row. row ! j \<le> row ! k) \<and> (\<forall>j < k. row ! j < row ! k)"
proof -
  from assms obtain v vs where row: "row = v # vs" and k: "k = argmax_scan 0 v 1 vs"
    by (auto simp: np_argmax_def split: list.splits)
  have "argmax_scan 0 v 1 vs < length ([v] @ vs) \<and>
         (\<forall>j < length ([v] @ vs). ([v] @ vs) ! j \<le> ([v] @ vs) ! argmax_scan 0 v 1 vs) \<and>
         (\<forall>j < argmax_scan 0 v 1 vs. ([v] @ vs) ! j < ([v] @ vs) ! argmax_scan 0 v 1 vs)"
    by (rule argmax_scan_props) auto
  then show ?thesis using row k by simp
qed

lemma foldl_max_Max: "foldl max (v :: real) vs = Max (set (v # vs))"
proof (induction vs arbitrary: v)
  case Nil
  show ?case by simp
next
  case (Cons w vs)
  have "foldl max v (w # vs) = Max (set (max v w # vs))" using Cons by simp
  also have "\<dots> = Max (set (v # w # vs))"
    by (cases vs) (auto simp: max.assoc)
  finally show ?case .
qed

lemma np_max_eq_argmax:
  assumes "np_argmax row = Inr k"
  shows "np_max row = Inr (row ! k)"
proof -
  from assms obtain v vs where row: "row = v # vs"
    by (auto simp: np_argmax_def split: list.splits)
  note P = np_argmax_props [OF assms]
  have "Max (set row) = row ! k"
  proof (rule Max_eqI)
    show "finite (set row)" by simp
    show "y \<le> row ! k" if "y \<in> set row" for y
      using that P by (auto simp: in_set_conv_nth)
    show "row ! k \<in> set row" using P by simp
  qed
  then show ?thesis using row by (simp add: np_max_def foldl_max_Max)
qed

lemma along_rows_Inr:
  "along_rows f rows = Inr ys \<Longrightarrow>
     length ys = length rows \<and> (\<forall>k < length rows. f (rows ! k) = Inr (ys ! k))"
proof (induction rows arbitrary: ys)
  case Nil
  then show ?case by simp
next
  case (Cons r rs)
  from Cons.prems obtain y ys' where y: "f r = Inr y" and ys': "along_rows f rs = Inr ys'"
    and ys: "ys = y # ys'"
    by (auto split: sum.splits)
  from Cons.IH [OF ys'] y ys show ?case
    by (auto simp: nth_Cons split: nat.splits)
qed

lemma along_rows_append:
  "along_rows f (a @ b) =
     (case along_rows f a of Inl e \<Rightarrow> Inl e
      | Inr ra \<Rightarrow> (case along_rows f b of Inl e \<Rightarrow> Inl e | Inr rb \<Rightarrow> Inr (ra @ rb)))"
  by (induction a) (auto split: sum.splits)

lemma predict_batches_run:
  "predict_batches ev X i (ps, cs, calls) = Inr (ps', cs', calls') \<Longrightarrow>
     \<exists>p c. ps' = ps @ p \<and> cs' = cs @ c \<and> calls' = calls @ batch_calls X i \<and>
           along_rows np_argmax (batch_rows ev X i) = Inr p \<and>
           along_rows np_max (batch_rows ev X i) = Inr c"
proof (induction ev X i "(ps, cs, calls)" arbitrary: ps cs calls rule: predict_batches.induct)
  case (1 ev X i ps cs calls)
  show ?case
  proof (cases "i < length X")
    case False
    with "1.prems" show ?thesis
      by (simp add: predict_batches.simps batch_rows.simps batch_calls.simps)
  next
    case True
    let ?batch = "py_slice X i (i + batch_size)"
    let ?bp = "model_predict ev ?batch"
    from "1.prems" True obtain classes confs where
      cl: "along_rows np_argmax ?bp = Inr classes" and
      co: "along_rows np_max ?bp = Inr confs" and
      rec: "predict_batches ev X (i + batch_size) (ps @ classes, cs @ confs, calls @ [length ?batch])
              = Inr (ps', cs', calls')"
      by (auto simp: predict_batches.simps [of ev X i] Let_def split: sum.splits)
    from "1.hyps" [OF True refl refl cl co rec]
    obtain p c where
      "ps' = (ps @ classes) @ p" "cs' = (cs @ confs) @ c"
      "calls' = (calls @ [length ?batch]) @ batch_calls X (i + batch_size)"
      "along_rows np_argmax (batch_rows ev X (i + batch_size)) = Inr p"
      "along_rows np_max (batch_rows ev X (i + batch_size)) = Inr c"
      by blast
    with True cl co show ?thesis
      by (simp add: batch_rows.simps [of ev X i] batch_calls.simps [of X i] along_rows_append)
  qed
qed

text \<open>
  Claim C10. Whenever the classification loop returns, it has one predicted class and one
  confidence per probability row the classifier returned, in order; for each row the
  class is \<^verbatim>\<open>np.argmax\<close> of the row (the first index of its maximum), the confidence is
  \<^verbatim>\<open>np.max\<close> of the row, and so the confidence is the probability the row gives to the
  predicted class.
\<close>

theorem confidence_is_probability_of_predicted_class:
  assumes "predict_batches ev X_segments 0 ([], [], []) = Inr (segment_classes, segment_confidences, calls)"
  shows "length segment_classes = length (batch_rows ev X_segments 0) \<and>
         length segment_confidences = length (batch_rows ev X_segments 0) \<and>
         (\<forall>k < length (batch_rows ev X_segments 0).
            np_argmax (batch_rows ev X_segments 0 ! k) = Inr (segment_classes ! k) \<and>
            np_max (batch_rows ev X_segments 0 ! k) = Inr (segment_confidences ! k) \<and>
            segment_classes ! k < length (batch_rows ev X_segments 0 ! k) \<and>
            segment_confidences ! k = batch_rows ev X_segments 0 ! k ! (segment_classes ! k) \<and>
            (\<forall>j < length (batch_rows ev X_segments 0 ! k).
               batch_rows ev X_segments 0 ! k ! j \<le> segment_confidences ! k) \<and>
            (\<forall>j < segment_classes ! k.
               batch_rows ev X_segments 0 ! k ! j < segment_confidences ! k))"
proof -
  let ?rows = "batch_rows ev X_segments 0"
  from predict_batches_run [OF assms]
  have am: "along_rows np_argmax ?rows = Inr segment_classes"
    and mx: "along_rows np_max ?rows = Inr segment_confidences"
    by auto
  note A = along_rows_Inr [OF am] and M = along_rows_Inr [OF mx]
  have each: "np_argmax (?rows ! k) = Inr (segment_classes ! k) \<and>
            np_max (?rows ! k) = Inr (segment_confidences ! k) \<and>
            segment_classes ! k < length (?rows ! k) \<and>
            segment_confidences ! k = ?rows ! k ! (segment_classes ! k) \<and>
            (\<forall>j < length (?rows ! k). ?rows ! k ! j \<le> segment_confidences ! k) \<and>
            (\<forall>j < segment_classes ! k. ?rows ! k ! j < segment_confidences ! k)"
    if "k < length ?rows" for k
  proof -
    have a: "np_argmax (?rows ! k) = Inr (segment_classes ! k)" using A that by blast
    have m: "np_max (?rows ! k) = Inr (segment_confidences ! k)" using M that by blast
    have eq: "segment_confidences ! k = ?rows ! k ! (segment_classes ! k)"
      using np_max_eq_argmax [OF a] m by simp
    show ?thesis using a m eq np_argmax_props [OF a] by simp
  qed
  show ?thesis using A M each by blast
qed

theorem confidence_is_probability_of_predicted_class_witness:
  "predict_batches (fixed_env True []) [[1 / 5, 7], [9 / 10]] 0 ([], [], [])
     = Inr ([1, 0], [4 / 5, 9 / 10], [2]) \<and>
   batch_rows (fixed_env True []) [[1 / 5, 7], [9 / 10]] 0 = [[1 / 5, 4 / 5], [9 / 10, 1 / 10]] \<and>
   [4 / 5, 9 / 10 :: real] ! 0 = [[1 / 5, 4 / 5], [9 / 10, 1 / 10]] ! 0 ! ([1, 0] ! 0) \<and>
   [4 / 5, 9 / 10 :: real] ! 1 = [[1 / 5, 4 / 5], [9 / 10, 1 / 10]] ! 1 ! ([1, 0] ! 1)"
proof -
  let ?ev = "fixed_env True []"
  let ?X = "[[1 / 5, 7], [9 / 10 :: real]]"
  have mp: "model_predict ?ev ?X = [[1 / 5, 4 / 5], [9 / 10, 1 / 10]]"
    by (simp add: fixed_env_def)
  have sl: "py_slice ?X 0 (0 + batch_size) = ?X"
    by (simp add: py_slice_def batch_size_def)
  have run: "predict_batches ?ev ?X 0 ([], [], []) = Inr ([1, 0], [4 / 5, 9 / 10], [2])"
    apply (subst predict_batches.simps)
    apply (subst predict_batches.simps)
    apply (simp only: sl mp Let_def)
    apply (simp add: np_argmax_def np_max_def batch_size_def)
    done
  have rows: "batch_rows ?ev ?X 0 = [[1 / 5, 4 / 5], [9 / 10, 1 / 10]]"
    apply (subst batch_rows.simps)
    apply (subst batch_rows.simps)
    apply (simp only: sl mp)
    apply (simp add: batch_size_def)
    done
  from confidence_is_probability_of_predicted_class [OF run] rows
  have "[4 / 5, 9 / 10 :: real] ! 0 = [[1 / 5, 4 / 5], [9 / 10, 1 / 10]] ! 0 ! ([1, 0] ! 0) \<and>
        [4 / 5, 9 / 10 :: real] ! 1 = [[1 / 5, 4 / 5], [9 / 10, 1 / 10]] ! 1 ! ([1, 0] ! 1)"
    by simp
  with run rows show ?thesis by blast
qed

lemma py_slice_batch_length:
  "length (py_slice X i (i + n)) = min n (length X - i)"
  by (simp add: py_slice_def min_def)

lemma along_rows_total:
  "list_all (\<lambda>r. \<exists>y. f r = Inr y) rows \<Longrightarrow> \<exists>ys. along_rows f rows = Inr ys"
  by (induction rows) auto

lemma np_argmax_total: "row \<noteq> [] \<Longrightarrow> \<exists>k. np_argmax row = Inr k"
  by (cases row) (simp_all add: np_argmax_def)

lemma np_max_total: "row \<noteq> [] \<Longrightarrow> \<exists>m. np_max row = Inr m"
  by (cases row) (simp_all add: np_max_def)

lemma predict_batches_total:
  assumes nonempty: "\<forall>b. list_all (\<lambda>row. row \<noteq> []) (model_predict ev b)"
  shows "\<exists>r. predict_batches ev X i (ps, cs, calls) = Inr r"
  using nonempty
proof (induction ev X i "(ps, cs, calls)" arbitrary: ps cs calls rule: predict_batches.induct)
  case (1 ev X i ps cs calls)
  show ?case
  proof (cases "i < length X")
    case False
    then show ?thesis by (simp add: predict_batches.simps [of ev X i])
  next
    case True
    let ?batch = "py_slice X i (i + batch_size)"
    let ?bp = "model_predict ev ?batch"
    have ne: "list_all (\<lambda>row. row \<noteq> []) ?bp" using "1.prems" by blast
    have "list_all (\<lambda>r. \<exists>y. np_argmax r = Inr y) ?bp"
      using ne np_argmax_total by (auto simp: list_all_iff)
    then obtain classes where cl: "along_rows np_argmax ?bp = Inr classes"
      using along_rows_total by blast
    have "list_all (\<lambda>r. \<exists>y. np_max r = Inr y) ?bp"
      using ne np_max_total by (auto simp: list_all_iff)
    then obtain confs where co: "along_rows np_max ?bp = Inr confs"
      using along_rows_total by blast
    from "1.hyps" [OF True refl refl cl co "1.prems"]
    obtain r where rec: "predict_batches ev X (i + batch_size)
        (ps @ classes, cs @ confs, calls @ [length ?batch]) = Inr r" by blast
    have "predict_batches ev X i (ps, cs, calls) = Inr r"
      apply (subst predict_batches.simps)
      apply (simp only: True if_True Let_def cl co sum.case rec)
      done
    then show ?thesis by blast
  qed
qed

lemma batch_rows_length:
  assumes "\<forall>b. length (model_predict ev b) = length b"
  shows "length (batch_rows ev X i) = length X - i"
  using assms
proof (induction ev X i rule: batch_rows.induct)
  case (1 ev X i)
  show ?case
  proof (cases "i < length X")
    case False
    then show ?thesis by (simp add: batch_rows.simps [of ev X i])
  next
    case True
    have rest: "length (batch_rows ev X (i + batch_size)) = length X - (i + batch_size)"
      using "1.IH" [OF True "1.prems"] .
    have first: "length (model_predict ev (py_slice X i (i + batch_size))) = min batch_size (length X - i)"
      using "1.prems" by (simp add: py_slice_batch_length)
    have "batch_rows ev X i = model_predict ev (py_slice X i (i + batch_size)) @ batch_rows ev X (i + batch_size)"
      using True by (subst batch_rows.simps) simp
    then have "length (batch_rows ev X i) = min batch_size (length X - i) + (length X - (i + batch_size))"
      using rest first by simp
    also have "\<dots> = length X - i" using True by (simp add: min_def)
    finally show ?thesis .
  qed
qed

lemma ceil_step:
  assumes "(0 :: nat) < d"
  shows "Suc ((d - 100 + 99) div 100) = (d + 99) div 100"
proof (cases "d \<le> 100")
  case True
  then have "(d + 99) div 100 = 1" using assms by simp
  with True show ?thesis by simp
next
  case False
  then obtain e where d: "d = e + 100" by (metis add.commute le_Suc_ex nat_le_linear)
  show ?thesis unfolding d by simp
qed

lemma batch_calls_length:
  "length (batch_calls X i) = (length X - i + 99) div 100"
proof (induction X i rule: batch_calls.induct)
  case (1 X i)
  show ?case
  proof (cases "i < length X")
    case False
    then show ?thesis by (simp add: batch_calls.simps [of X i])
  next
    case True
    have "length (batch_calls X (i + batch_size)) = (length X - (i + batch_size) + 99) div 100"
      using "1.IH" [OF True] .
    then have rest: "length (batch_calls X (i + batch_size)) = (length X - i - 100 + 99) div 100"
      by (simp add: batch_size_def)
    have "batch_calls X i = length (py_slice X i (i + batch_size)) # batch_calls X (i + batch_size)"
      using True by (subst batch_calls.simps) simp
    then have "length (batch_calls X i) = Suc ((length X - i - 100 + 99) div 100)"
      using rest by simp
    also have "\<dots> = (length X - i + 99) div 100"
      using True by (intro ceil_step) simp
    finally show ?thesis .
  qed
qed

lemma batch_calls_nth:
  "j < length (batch_calls X i) \<Longrightarrow> batch_calls X i ! j = min 100 (length X - i - 100 * j)"
proof (induction X i arbitrary: j rule: batch_calls.induct)
  case (1 X i)
  show ?case
  proof (cases "i < length X")
    case False
    with "1.prems" show ?thesis by (simp add: batch_calls.simps [of X i])
  next
    case True
    have unfold: "batch_calls X i = length (py_slice X i (i + batch_size)) # batch_calls X (i + batch_size)"
      using True by (subst batch_calls.simps) simp
    show ?thesis
    proof (cases j)
      case 0
      then show ?thesis
        by (simp add: unfold py_slice_batch_length batch_size_def)
    next
      case (Suc j')
      with "1.prems" have "j' < length (batch_calls X (i + batch_size))"
        by (simp add: unfold)
      from "1.IH" [OF True this]
      have "batch_calls X (i + batch_size) ! j' = min 100 (length X - (i + batch_size) - 100 * j')" .
      then show ?thesis
        by (simp add: unfold Suc batch_size_def)
    qed
  qed
qed

lemma batch_rows_nth:
  assumes "\<forall>b. length (model_predict ev b) = length b"
  shows "k < length X - i \<Longrightarrow>
         batch_rows ev X i ! k =
           model_predict ev (py_slice X (i + 100 * (k div 100)) (i + 100 * (k div 100) + 100)) ! (k mod 100)"
  using assms
proof (induction ev X i arbitrary: k rule: batch_rows.induct)
  case (1 ev X i)
  from "1.prems" have lt: "i < length X" by simp
  let ?first = "model_predict ev (py_slice X i (i + batch_size))"
  have unfold: "batch_rows ev X i = ?first @ batch_rows ev X (i + batch_size)"
    using lt by (subst batch_rows.simps) simp
  have flen: "length ?first = min 100 (length X - i)"
    using "1.prems" by (simp add: py_slice_batch_length batch_size_def)
  show ?case
  proof (cases "k < 100")
    case True
    then have "k < length ?first" using flen "1.prems" by simp
    then have "batch_rows ev X i ! k = ?first ! k"
      by (simp add: unfold nth_append)
    with True show ?thesis by (simp add: batch_size_def)
  next
    case False
    then obtain k' where k: "k = k' + 100" by (metis add.commute le_Suc_ex not_less)
    have fl: "length ?first = 100" using flen "1.prems" False by simp
    have k': "k' < length X - (i + batch_size)"
      using k "1.prems" by (simp add: batch_size_def)
    have "batch_rows ev X i ! k = batch_rows ev X (i + batch_size) ! k'"
      using fl by (simp add: unfold nth_append k)
    also have "\<dots> = model_predict ev
        (py_slice X (i + batch_size + 100 * (k' div 100))
           (i + batch_size + 100 * (k' div 100) + 100)) ! (k' mod 100)"
      using "1.IH" [OF lt k' "1.prems"(2)] .
    also have "i + batch_size + 100 * (k' div 100) = i + 100 * (k div 100)"
      by (simp add: batch_size_def k)
    also have "k' mod 100 = k mod 100"
      by (simp add: k)
    finally show ?thesis .
  qed
qed

lemma py_slice_chunk_nth:
  assumes k: "k < length X"
  shows "py_slice X (100 * (k div 100)) (100 * (k div 100) + 100) ! (k mod 100) = X ! k"
proof -
  have a: "100 * (k div 100) + k mod 100 = k" by simp
  have b: "k mod 100 < 100" by simp
  have "py_slice X (100 * (k div 100)) (100 * (k div 100) + 100) ! (k mod 100)
          = drop (100 * (k div 100)) X ! (k mod 100)"
    using b by (simp add: py_slice_def)
  also have "\<dots> = X ! (100 * (k div 100) + k mod 100)"
    using k by (intro nth_drop) simp
  finally show ?thesis using a by simp
qed

lemma batch_calls_237:
  assumes "length X = 237"
  shows "batch_calls X 0 = [100, 100, 37]"
proof -
  have c0: "batch_calls X 0 = length (py_slice X 0 (0 + batch_size)) # batch_calls X (0 + batch_size)"
    using assms by (subst batch_calls.simps) simp
  have c1: "batch_calls X 100 = length (py_slice X 100 (100 + batch_size)) # batch_calls X (100 + batch_size)"
    using assms by (subst batch_calls.simps) simp
  have c2: "batch_calls X 200 = length (py_slice X 200 (200 + batch_size)) # batch_calls X (200 + batch_size)"
    using assms by (subst batch_calls.simps) simp
  have c3: "batch_calls X 300 = []"
    using assms by (subst batch_calls.simps) simp
  show ?thesis
    using assms by (simp add: c0 c1 c2 c3 py_slice_def batch_size_def)
qed

text \<open>
  Claim C6, for a classifier that returns one non-empty probability row per segment of
  its batch. The loop returns; it calls the classifier \<open>\<lceil>N / 100\<rceil>\<close> times, call \<open>j\<close> on the
  \<open>min 100 (N - 100 j)\<close> segments from index \<open>100 j\<close> on (so every batch but the last has
  100 segments and the last has the remaining ones); it produces exactly \<open>N\<close> predictions
  and confidences, the \<open>k\<close>-th computed from the row the classifier returned for segment
  \<open>k\<close>, which is segment \<open>k mod 100\<close> of batch \<open>k div 100\<close>. For 237 segments the calls have
  sizes 100, 100, 37.
\<close>

theorem batched_classification:
  assumes rows: "\<forall>b. length (model_predict ev b) = length b"
      and nonempty: "\<forall>b. list_all (\<lambda>row. row \<noteq> []) (model_predict ev b)"
  shows "\<exists>preds confs calls.
           predict_batches ev X_segments 0 ([], [], []) = Inr (preds, confs, calls) \<and>
           length preds = length X_segments \<and> length confs = length X_segments \<and>
           length calls = (length X_segments + 99) div 100 \<and>
           (\<forall>j < length calls. calls ! j = min 100 (length X_segments - 100 * j)) \<and>
           (\<forall>k < length X_segments.
              py_slice X_segments (100 * (k div 100)) (100 * (k div 100) + 100) ! (k mod 100)
                = X_segments ! k \<and>
              np_argmax (model_predict ev
                  (py_slice X_segments (100 * (k div 100)) (100 * (k div 100) + 100)) ! (k mod 100))
                = Inr (preds ! k) \<and>
              np_max (model_predict ev
                  (py_slice X_segments (100 * (k div 100)) (100 * (k div 100) + 100)) ! (k mod 100))
                = Inr (confs ! k)) \<and>
           (length X_segments = 237 \<longrightarrow> calls = [100, 100, 37])"
proof -
  let ?rows = "batch_rows ev X_segments 0"
  obtain preds confs calls where
    run: "predict_batches ev X_segments 0 ([], [], []) = Inr (preds, confs, calls)"
    using predict_batches_total [OF nonempty, of X_segments 0 "[]" "[]" "[]"]
    by (metis prod_cases3)
  from predict_batches_run [OF run]
  have am: "along_rows np_argmax ?rows = Inr preds"
    and mx: "along_rows np_max ?rows = Inr confs"
    and calls: "calls = batch_calls X_segments 0"
    by auto
  have rlen: "length ?rows = length X_segments"
    using batch_rows_length [OF rows, of X_segments 0] by simp
  note A = along_rows_Inr [OF am] and M = along_rows_Inr [OF mx]
  have lp: "length preds = length X_segments" using A rlen by simp
  have lc: "length confs = length X_segments" using M rlen by simp
  have ncalls: "length calls = (length X_segments + 99) div 100"
    using batch_calls_length [of X_segments 0] calls by simp
  have sizes: "\<forall>j < length calls. calls ! j = min 100 (length X_segments - 100 * j)"
    using batch_calls_nth [of _ X_segments 0] calls by simp
  have order: "py_slice X_segments (100 * (k div 100)) (100 * (k div 100) + 100) ! (k mod 100)
                = X_segments ! k \<and>
              np_argmax (model_predict ev
                  (py_slice X_segments (100 * (k div 100)) (100 * (k div 100) + 100)) ! (k mod 100))
                = Inr (preds ! k) \<and>
              np_max (model_predict ev
                  (py_slice X_segments (100 * (k div 100)) (100 * (k div 100) + 100)) ! (k mod 100))
                = Inr (confs ! k)"
    if k: "k < length X_segments" for k
  proof -
    have row: "?rows ! k = model_predict ev
        (py_slice X_segments (100 * (k div 100)) (100 * (k div 100) + 100)) ! (k mod 100)"
      using batch_rows_nth [OF rows, of k X_segments 0] k by simp
    have "np_argmax (?rows ! k) = Inr (preds ! k)" using A k rlen by simp
    moreover have "np_max (?rows ! k) = Inr (confs ! k)" using M k rlen by simp
    ultimately show ?thesis using row py_slice_chunk_nth [OF k] by simp
  qed
  have ex: "length X_segments = 237 \<longrightarrow> calls = [100, 100, 37]"
    using batch_calls_237 calls by simp
  show ?thesis using run lp lc ncalls sizes order ex by blast
qed

theorem batched_classification_witness:
  "(\<forall>b. length (model_predict (fixed_env True []) b) = length b) \<and>
   (\<forall>b. list_all (\<lambda>row. row \<noteq> []) (model_predict (fixed_env True []) b)) \<and>
   (\<exists>preds confs calls.
      predict_batches (fixed_env True []) (replicate 237 [1 / 4]) 0 ([], [], [])
        = Inr (preds, confs, calls) \<and>
      length preds = 237 \<and> length confs = 237 \<and> calls = [100, 100, 37])"
proof -
  let ?ev = "fixed_env True []"
  have a: "\<forall>b. length (model_predict ?ev b) = length b" by (simp add: fixed_env_def)
  have b: "\<forall>b. list_all (\<lambda>row. row \<noteq> []) (model_predict ?ev b)"
    by (simp add: fixed_env_def list_all_iff split: list.splits)
  from batched_classification [OF a b, of "replicate 237 [1 / 4]"]
  have "\<exists>preds confs calls.
      predict_batches ?ev (replicate 237 [1 / 4]) 0 ([], [], []) = Inr (preds, confs, calls) \<and>
      length preds = 237 \<and> length confs = 237 \<and> calls = [100, 100, 37]"
    by simp blast
  with a b show ?thesis by blast
qed

subsection \<open>SegmentValidator\<close>

lemma np_max_Max: "xs \<noteq> [] \<Longrightarrow> np_max xs = Inr (Max (set xs))"
  by (cases xs) (simp_all add: np_max_def foldl_max_Max)

lemma np_std_empty: "np_std [] = 0"
  by (simp add: np_std_def np_var_def np_mean_def)

lemma np_max_abs_le_iff:
  assumes "xs \<noteq> []"
  shows "(case np_max (map abs xs) of Inl e \<Rightarrow> False | Inr m \<Rightarrow> if m > 100 then False else True)
           = list_all (\<lambda>x. \<bar>x\<bar> \<le> 100) xs"
proof -
  have ne: "map abs xs \<noteq> []" using assms by simp
  have "finite (set (map abs xs))" and "set (map abs xs) \<noteq> {}" using assms by simp_all
  then have "(Max (set (map abs xs)) \<le> 100) = (\<forall>a \<in> set (map abs xs). a \<le> 100)"
    by (rule Max_le_iff)
  then have "(\<not> 100 < Max (set (map abs xs))) = list_all (\<lambda>x. \<bar>x\<bar> \<le> 100) xs"
    by (simp add: list_all_iff not_less)
  then show ?thesis
    unfolding np_max_Max [OF ne] by auto
qed

lemma segment_passes_iff: "segment_passes L segment = spec_accepts L segment"
proof (cases "length segment = L \<and> \<not> list_ex isnan segment \<and> \<not> list_ex isinf segment")
  case False
  then show ?thesis by (auto simp: segment_passes_def spec_accepts_def)
next
  case True
  define xs where "xs = map the_real segment"
  have all: "list_all (\<lambda>s. \<bar>the_real s\<bar> \<le> 100) segment = list_all (\<lambda>x. \<bar>x\<bar> \<le> 100) xs"
    by (simp add: xs_def list_all_iff)
  have passes: "segment_passes L segment =
      (if xs \<noteq> [] \<and> np_std xs < 1 / 10 ^ 6 then False
       else (case np_max (map abs xs) of Inl e \<Rightarrow> False | Inr m \<Rightarrow> if m > 100 then False else True))"
    using True unfolding segment_passes_def Let_def xs_def by simp
  have accepts: "spec_accepts L segment =
      (1 / 10 ^ 6 \<le> np_std xs \<and> list_all (\<lambda>x. \<bar>x\<bar> \<le> 100) xs)"
    using True all unfolding spec_accepts_def xs_def by simp
  show ?thesis
  proof (cases "xs = []")
    case True
    then show ?thesis
      unfolding passes accepts by (simp add: np_max_def np_std_empty)
  next
    case False
    show ?thesis
      unfolding passes accepts np_max_abs_le_iff [OF False] using False by auto
  qed
qed

lemma validate_segments_spec:
  "validate_segments segments L = filter (spec_accepts L) segments"
  by (simp add: validate_segments_def segment_passes_iff [abs_def])

lemma validated_rows_length:
  "list_all (\<lambda>row. length row = L) (map (map the_real) (validate_segments segments L))"
  by (simp add: validate_segments_spec list_all_iff spec_accepts_def)

lemma scaler_transform_ok:
  assumes "length (scaler_mean sc) = L" and "length (scaler_scale sc) = L"
      and "list_all (\<lambda>row. length row = L) X"
  shows "\<exists>Y. scaler_transform sc X = Inr Y \<and> length Y = length X \<and>
             list_all (\<lambda>row. length row = L) Y"
  using assms
  by (auto simp: scaler_transform_def list_all_iff list_ex_iff)

text \<open>
  Claim C8. The validator returns, in their original order, exactly the segments that
  have length \<open>L\<close>, hold no NaN and no infinity, have standard deviation at least
  \<open>1e-6\<close> and absolute amplitude at most 100. In the pipeline, once the conditioner and
  the peak detector have returned and at least one extracted segment is accepted, a
  transform of the right length gives a result whatever share was rejected: one
  normalized segment per accepted one, with the warning set exactly when fewer than half
  of the extracted segments were accepted.
\<close>

theorem validator_accepts_iff:
  "validate_segments segments L = filter (spec_accepts L) segments \<and>
   (\<forall>ev continuous_ecg sc rate filtered r_peaks.
      preprocess_ecg ev continuous_ecg rate = Inr filtered \<and>
      detect_r_peaks ev filtered rate = Inr r_peaks \<and>
      validate_segments (map (map Finite) (extract_heartbeat_segments filtered r_peaks L)) L \<noteq> [] \<and>
      length (scaler_mean sc) = L \<and> length (scaler_scale sc) = L
      \<longrightarrow> (\<exists>normalized.
             segment_ecg_beats ev continuous_ecg sc L rate =
               Inr (2 * length (validate_segments
                                  (map (map Finite) (extract_heartbeat_segments filtered r_peaks L)) L)
                      < length (extract_heartbeat_segments filtered r_peaks L),
                    normalized) \<and>
             length normalized =
               length (validate_segments
                         (map (map Finite) (extract_heartbeat_segments filtered r_peaks L)) L)))"
proof -
  have proceeds: "\<exists>normalized.
             segment_ecg_beats ev continuous_ecg sc L rate =
               Inr (2 * length (validate_segments
                                  (map (map Finite) (extract_heartbeat_segments filtered r_peaks L)) L)
                      < length (extract_heartbeat_segments filtered r_peaks L),
                    normalized) \<and>
             length normalized =
               length (validate_segments
                         (map (map Finite) (extract_heartbeat_segments filtered r_peaks L)) L)"
    if pre: "preprocess_ecg ev continuous_ecg rate = Inr filtered"
      and det: "detect_r_peaks ev filtered rate = Inr r_peaks"
      and some: "validate_segments (map (map Finite) (extract_heartbeat_segments filtered r_peaks L)) L \<noteq> []"
      and m: "length (scaler_mean sc) = L" and s: "length (scaler_scale sc) = L"
    for ev continuous_ecg sc rate filtered r_peaks
  proof -
    let ?raw = "extract_heartbeat_segments filtered r_peaks L"
    let ?val = "validate_segments (map (map Finite) ?raw) L"
    let ?vs = "map (map the_real) ?val"
    from det have peaks: "r_peaks \<noteq> []"
      by (auto simp: detect_r_peaks_def Let_def split: sum.splits if_splits)
    from some have raw: "?raw \<noteq> []" by (auto simp: validate_segments_def)
    have frows: "list_all (\<lambda>row. length row = L) (map (map to_float32) ?vs)"
      using validated_rows_length [of L "map (map Finite) ?raw"] by (simp add: list_all_iff)
    from scaler_transform_ok [OF m s frows]
    obtain Y where Y: "scaler_transform sc (map (map to_float32) ?vs) = Inr Y"
      and lY: "length Y = length ?vs"
      and rows: "list_all (\<lambda>row. length row = L) Y" by auto
    from rows have ok: "\<not> list_ex (\<lambda>row. length row \<noteq> L) Y"
      by (auto simp: list_all_iff list_ex_iff)
    have flag: "(real (length ?vs) < real (length ?raw) * (1 / 2)) = (2 * length ?val < length ?raw)"
      by (simp add: field_simps) linarith
    have "segment_ecg_beats ev continuous_ecg sc L rate = Inr (2 * length ?val < length ?raw, Y)"
      using peaks raw some Y ok flag
      by (simp add: segment_ecg_beats_def pre det Let_def)
    with lY show ?thesis by simp
  qed
  show ?thesis using validate_segments_spec proceeds by blast
qed

lemma np_std_less_iff: "0 < c \<Longrightarrow> (np_std xs < c) = (np_var xs < c\<^sup>2)"
proof -
  assume c: "0 < c"
  have "(sqrt (np_var xs) < sqrt (c\<^sup>2)) = (np_var xs < c\<^sup>2)" by (rule real_sqrt_less_iff)
  with c show ?thesis by (simp add: np_std_def)
qed

lemma var_flat: "np_var [- 1, - 1, - 1, - 1] = 0"
  by (simp add: np_var_def np_mean_def)

lemma std_flat: "np_std [- 1, - 1, - 1, - 1] = 0"
  by (simp add: np_std_def var_flat)

lemma var_beat: "np_var [- 1, - 1, 29, - 1] = 675 / 4"
  by (simp add: np_var_def np_mean_def power2_eq_square)

lemma std_beat: "\<not> np_std [- 1, - 1, 29, - 1] < 1 / 10 ^ 6"
  using np_std_less_iff [of "1 / 10 ^ 6" "[- 1, - 1, 29, - 1]"]
  by (simp add: var_beat power2_eq_square)

lemma flat_rejected: "\<not> spec_accepts 4 (map Finite [- 1, - 1, - 1, - 1])"
  by (simp add: spec_accepts_def std_flat)

lemma beat_accepted: "spec_accepts 4 (map Finite [- 1, - 1, 29, - 1])"
  using std_beat by (simp add: spec_accepts_def not_less)

lemma replicate_4: "replicate 4 x = [x, x, x, x]"
  by (simp add: eval_nat_numeral)

lemma replicate_2: "replicate 2 x = [x, x]"
  by (simp add: eval_nat_numeral)

theorem validator_accepts_iff_witness:
  "preprocess_ecg (fixed_env True [5, 15, 25]) (replicate 15 0 @ [30] @ replicate 14 0) 10
     = Inr (replicate 15 (- 1) @ [29] @ replicate 14 (- 1)) \<and>
   detect_r_peaks (fixed_env True [5, 15, 25]) (replicate 15 (- 1) @ [29] @ replicate 14 (- 1)) 10
     = Inr [5, 15, 25] \<and>
   extract_heartbeat_segments (replicate 15 (- 1) @ [29] @ replicate 14 (- 1 :: real)) [5, 15, 25] 4
     = [[- 1, - 1, - 1, - 1], [- 1, - 1, 29, - 1], [- 1, - 1, - 1, - 1]] \<and>
   validate_segments (map (map Finite) [[- 1, - 1, - 1, - 1], [- 1, - 1, 29, - 1], [- 1, - 1, - 1, - 1]]) 4
     = [[Finite (- 1), Finite (- 1), Finite 29, Finite (- 1)]] \<and>
   (\<exists>normalized.
      segment_ecg_beats (fixed_env True [5, 15, 25]) (replicate 15 0 @ [30] @ replicate 14 0)
        \<lparr>scaler_mean = [0, 0, 0, 0], scaler_scale = [1, 1, 1, 1]\<rparr> 4 10 = Inr (True, normalized) \<and>
      length normalized = 1)"
proof -
  let ?ev = "fixed_env True [5, 15, 25]"
  let ?sig = "replicate 15 0 @ [30] @ replicate 14 (0 :: real)"
  let ?filtered = "replicate 15 (- 1) @ [29] @ replicate 14 (- 1 :: real)"
  let ?sc = "\<lparr>scaler_mean = [0, 0, 0, 0], scaler_scale = [1, 1, 1, 1 :: real]\<rparr>"
  let ?raw = "[[- 1, - 1, - 1, - 1], [- 1, - 1, 29, - 1], [- 1, - 1, - 1, - 1 :: real]]"
  have mean: "np_mean ?sig = 1" by (simp add: np_mean_def sum_list_replicate)
  have pre: "preprocess_ecg ?ev ?sig 10 = Inr ?filtered"
    by (simp add: preprocess_ecg_def np_mean_def sum_list_replicate filtfilt_padlen_def fixed_env_def)
  have det: "detect_r_peaks ?ev ?filtered 10 = Inr [5, 15, 25]"
    by (simp add: detect_r_peaks_def candidate_peaks_def fixed_env_def int_of_tenths_def Let_def)
  have raw: "extract_heartbeat_segments ?filtered [5, 15, 25] 4 = ?raw"
    by (simp add: Let_def py_slice_def replicate_4 replicate_2)
  have val: "validate_segments (map (map Finite) ?raw) 4
               = [[Finite (- 1), Finite (- 1), Finite 29, Finite (- 1)]]"
    using flat_rejected beat_accepted by (simp add: validate_segments_spec)
  have some: "validate_segments (map (map Finite) (extract_heartbeat_segments ?filtered [5, 15, 25] 4)) 4 \<noteq> []"
    unfolding raw val by simp
  have m: "length (scaler_mean ?sc) = 4" and s: "length (scaler_scale ?sc) = 4" by simp_all
  have "\<exists>normalized.
      segment_ecg_beats ?ev ?sig ?sc 4 10 =
        Inr (2 * length (validate_segments
               (map (map Finite) (extract_heartbeat_segments ?filtered [5, 15, 25] 4)) 4)
               < length (extract_heartbeat_segments ?filtered [5, 15, 25] 4), normalized) \<and>
      length normalized = length (validate_segments
               (map (map Finite) (extract_heartbeat_segments ?filtered [5, 15, 25] 4)) 4)"
    using validator_accepts_iff [of "[]" 4] pre det some m s by blast
  then have "\<exists>normalized.
      segment_ecg_beats ?ev ?sig ?sc 4 10 = Inr (True, normalized) \<and> length normalized = 1"
    unfolding raw val by simp
  with pre det raw val show ?thesis by blast
qed

subsection \<open>Normalizer\<close>

lemma identity_row:
  "length row = L \<Longrightarrow>
     map (\<lambda>(x, m, s). (x - m) / s) (zip row (zip (replicate L 0) (replicate L (1 :: real)))) = row"
proof (induction row arbitrary: L)
  case Nil
  show ?case by simp
next
  case (Cons x xs)
  then obtain L' where L: "L = Suc L'" and len: "length xs = L'" by (cases L) auto
  from Cons.IH [OF len] show ?case by (simp add: L)
qed

text \<open>
  The transform alone: with mean 0 and standard deviation 1 at every position, a batch
  whose rows have the transform's length comes back unchanged.
\<close>

lemma scaler_transform_identity:
  assumes "scaler_mean sc = replicate L 0" and "scaler_scale sc = replicate L 1"
      and "list_all (\<lambda>row. length row = L) X"
  shows "scaler_transform sc X = Inr X"
proof -
  have shape: "\<not> (length (scaler_scale sc) \<noteq> length (scaler_mean sc) \<or>
                 list_ex (\<lambda>row. length row \<noteq> length (scaler_mean sc)) X)"
    using assms by (auto simp: list_all_iff list_ex_iff)
  have "map (\<lambda>row. map (\<lambda>(x, m, s). (x - m) / s)
               (zip row (zip (scaler_mean sc) (scaler_scale sc)))) X = X"
  proof (rule map_idI)
    fix row assume "row \<in> set X"
    with assms(3) have "length row = L" by (simp add: list_all_iff)
    then show "map (\<lambda>(x, m, s). (x - m) / s)
               (zip row (zip (scaler_mean sc) (scaler_scale sc))) = row"
      unfolding assms(1,2) by (rule identity_row)
  qed
  with shape show ?thesis unfolding scaler_transform_def by simp
qed

subsection \<open>Normalizer in the pipeline\<close>

lemma floor_log2_tenth: "\<lfloor>log 2 (1 / 10 :: real)\<rfloor> = - 4"
proof -
  have a: "2 powr (- 4 :: real) = 1 / 16" by (simp add: powr_minus_divide)
  have b: "2 powr (- 3 :: real) = 1 / 8" by (simp add: powr_minus_divide)
  have lo: "(- 4 :: real) \<le> log 2 (1 / 10)"
    using le_log_iff [of 2 "1 / 10" "- 4"] a by simp
  have hi: "log 2 (1 / 10) < (- 3 :: real)"
    using log_less_iff [of 2 "1 / 10" "- 3"] b by simp
  show ?thesis
    using lo hi by (intro floor_unique) simp_all
qed

lemma float32_ulp_tenth: "float32_ulp (- (1 / 10)) = 1 / 2 ^ 27"
  by (simp add: float32_ulp_def floor_log2_tenth Let_def)

lemma to_float32_tenth: "to_float32 (- (1 / 10)) = - (13421773 / 134217728)"
proof -
  have "round_half_even (- (1 / 10) / (1 / 2 ^ 27)) = - 13421773"
    by (simp add: round_half_even_def Let_def)
  then show ?thesis
    by (simp add: to_float32_def float32_ulp_tenth)
qed


lemma flat_tenths_rejected: "\<not> spec_accepts 4 (map Finite [- (1 / 10), - (1 / 10), - (1 / 10), - (1 / 10)])"
proof -
  have "np_var [- (1 / 10), - (1 / 10), - (1 / 10), - (1 / 10)] = 0"
    by (simp add: np_var_def np_mean_def)
  then have "np_std [- (1 / 10), - (1 / 10), - (1 / 10), - (1 / 10)] = 0"
    by (simp add: np_std_def)
  then show ?thesis by (simp add: spec_accepts_def)
qed

lemma beat_tenths_accepted: "spec_accepts 4 (map Finite [- (1 / 10), - (1 / 10), 29 / 10, - (1 / 10)])"
proof -
  have v: "np_var [- (1 / 10), - (1 / 10), 29 / 10, - (1 / 10)] = 27 / 16"
    by (simp add: np_var_def np_mean_def power2_eq_square)
  have "\<not> np_std [- (1 / 10), - (1 / 10), 29 / 10, - (1 / 10)] < 1 / 10 ^ 6"
    using np_std_less_iff [of "1 / 10 ^ 6" "[- (1 / 10), - (1 / 10), 29 / 10, - (1 / 10)]"]
    by (simp add: v power2_eq_square)
  then show ?thesis by (simp add: spec_accepts_def not_less)
qed

lemma map_fixed: "list_all (\<lambda>x. f x = x) xs \<Longrightarrow> map f xs = xs"
  by (induction xs) auto

lemma map_map_fixed: "list_all (list_all (\<lambda>x. f x = x)) xss \<Longrightarrow> map (map f) xss = xss"
  by (induction xss) (auto simp: map_fixed)

lemma identity_transform_run:
  assumes pre: "preprocess_ecg ev continuous_ecg rate = Inr filtered"
      and det: "detect_r_peaks ev filtered rate = Inr r_peaks"
      and some: "validate_segments (map (map Finite) (extract_heartbeat_segments filtered r_peaks L)) L
                   \<noteq> []"
      and mean: "scaler_mean sc = replicate L 0"
      and scale: "scaler_scale sc = replicate L 1"
  shows "segment_ecg_beats ev continuous_ecg sc L rate =
           Inr (2 * length (validate_segments
                              (map (map Finite) (extract_heartbeat_segments filtered r_peaks L)) L)
                  < length (extract_heartbeat_segments filtered r_peaks L),
                map (map to_float32)
                  (map (map the_real)
                     (validate_segments
                        (map (map Finite) (extract_heartbeat_segments filtered r_peaks L)) L)))"
proof -
  let ?raw = "extract_heartbeat_segments filtered r_peaks L"
  let ?val = "validate_segments (map (map Finite) ?raw) L"
  let ?vs = "map (map the_real) ?val"
  let ?fa = "map (map to_float32) ?vs"
  from det have peaks: "r_peaks \<noteq> []"
    by (auto simp: detect_r_peaks_def Let_def split: sum.splits if_splits)
  from some have raw: "?raw \<noteq> []" by (auto simp: validate_segments_def)
  have frows: "list_all (\<lambda>row. length row = L) ?fa"
    using validated_rows_length [of L "map (map Finite) ?raw"] by (simp add: list_all_iff)
  have tr: "scaler_transform sc ?fa = Inr ?fa"
    using mean scale frows by (rule scaler_transform_identity)
  from frows have ok: "\<not> list_ex (\<lambda>row. length row \<noteq> L) ?fa"
    by (auto simp: list_all_iff list_ex_iff)
  have flag: "(real (length ?vs) < real (length ?raw) * (1 / 2)) = (2 * length ?val < length ?raw)"
    by (simp add: field_simps) linarith
  show ?thesis
    using peaks raw some tr ok flag
    by (simp add: segment_ecg_beats_def pre det Let_def)
qed

text \<open>
  Claim C9, as the code has it. The pipeline converts the validated batch to 32-bit
  floats before it applies the transform. With mean 0 and standard deviation 1 at every
  position the normalized output is therefore the validated batch with every sample
  rounded to the nearest 32-bit float; it is the validated batch itself when every
  sample is a 32-bit float already.
\<close>

theorem normalizer_identity_up_to_float32:
  assumes pre: "preprocess_ecg ev continuous_ecg rate = Inr filtered"
      and det: "detect_r_peaks ev filtered rate = Inr r_peaks"
      and some: "validate_segments (map (map Finite) (extract_heartbeat_segments filtered r_peaks L)) L
                   \<noteq> []"
      and mean: "scaler_mean sc = replicate L 0"
      and scale: "scaler_scale sc = replicate L 1"
  shows "segment_ecg_beats ev continuous_ecg sc L rate =
           Inr (2 * length (validate_segments
                              (map (map Finite) (extract_heartbeat_segments filtered r_peaks L)) L)
                  < length (extract_heartbeat_segments filtered r_peaks L),
                map (map to_float32)
                  (map (map the_real)
                     (validate_segments
                        (map (map Finite) (extract_heartbeat_segments filtered r_peaks L)) L))) \<and>
         (list_all (list_all (\<lambda>x. to_float32 x = x))
            (map (map the_real)
               (validate_segments
                  (map (map Finite) (extract_heartbeat_segments filtered r_peaks L)) L))
          \<longrightarrow> segment_ecg_beats ev continuous_ecg sc L rate =
                Inr (2 * length (validate_segments
                                   (map (map Finite) (extract_heartbeat_segments filtered r_peaks L)) L)
                       < length (extract_heartbeat_segments filtered r_peaks L),
                     map (map the_real)
                       (validate_segments
                          (map (map Finite) (extract_heartbeat_segments filtered r_peaks L)) L)))"
proof -
  let ?raw = "extract_heartbeat_segments filtered r_peaks L"
  let ?val = "validate_segments (map (map Finite) ?raw) L"
  let ?vs = "map (map the_real) ?val"
  let ?fa = "map (map to_float32) ?vs"
  have run: "segment_ecg_beats ev continuous_ecg sc L rate = Inr (2 * length ?val < length ?raw, ?fa)"
    using pre det some mean scale by (rule identity_transform_run)
  have same: "?fa = ?vs" if "list_all (list_all (\<lambda>x. to_float32 x = x)) ?vs"
    using that by (rule map_map_fixed)
  show ?thesis using run same by auto
qed

theorem normalizer_identity_up_to_float32_witness:
  "preprocess_ecg (fixed_env True [5, 15, 25]) (replicate 15 0 @ [30] @ replicate 14 0) 10
     = Inr (replicate 15 (- 1) @ [29] @ replicate 14 (- 1)) \<and>
   detect_r_peaks (fixed_env True [5, 15, 25]) (replicate 15 (- 1) @ [29] @ replicate 14 (- 1)) 10
     = Inr [5, 15, 25] \<and>
   validate_segments (map (map Finite)
       (extract_heartbeat_segments (replicate 15 (- 1) @ [29] @ replicate 14 (- 1 :: real)) [5, 15, 25] 4)) 4
     = [[Finite (- 1), Finite (- 1), Finite 29, Finite (- 1)]] \<and>
   scaler_mean \<lparr>scaler_mean = [0, 0, 0, 0], scaler_scale = [1, 1, 1, 1]\<rparr> = replicate 4 0 \<and>
   scaler_scale \<lparr>scaler_mean = [0, 0, 0, 0], scaler_scale = [1, 1, 1, 1]\<rparr> = replicate 4 1 \<and>
   segment_ecg_beats (fixed_env True [5, 15, 25]) (replicate 15 0 @ [30] @ replicate 14 0)
     \<lparr>scaler_mean = [0, 0, 0, 0], scaler_scale = [1, 1, 1, 1]\<rparr> 4 10
     = Inr (True, [[to_float32 (- 1), to_float32 (- 1), to_float32 29, to_float32 (- 1)]])"
proof -
  let ?ev = "fixed_env True [5, 15, 25]"
  let ?sig = "replicate 15 0 @ [30] @ replicate 14 (0 :: real)"
  let ?filtered = "replicate 15 (- 1) @ [29] @ replicate 14 (- 1 :: real)"
  let ?sc = "\<lparr>scaler_mean = [0, 0, 0, 0], scaler_scale = [1, 1, 1, 1 :: real]\<rparr>"
  let ?raw = "[[- 1, - 1, - 1, - 1], [- 1, - 1, 29, - 1], [- 1, - 1, - 1, - 1 :: real]]"
  have pre: "preprocess_ecg ?ev ?sig 10 = Inr ?filtered"
    by (simp add: preprocess_ecg_def np_mean_def sum_list_replicate filtfilt_padlen_def fixed_env_def)
  have det: "detect_r_peaks ?ev ?filtered 10 = Inr [5, 15, 25]"
    by (simp add: detect_r_peaks_def candidate_peaks_def fixed_env_def int_of_tenths_def Let_def)
  have raw: "extract_heartbeat_segments ?filtered [5, 15, 25] 4 = ?raw"
    by (simp add: Let_def py_slice_def replicate_4 replicate_2)
  have val: "validate_segments (map (map Finite) (extract_heartbeat_segments ?filtered [5, 15, 25] 4)) 4
               = [[Finite (- 1), Finite (- 1), Finite 29, Finite (- 1)]]"
    unfolding raw using flat_rejected beat_accepted by (simp add: validate_segments_spec)
  have len: "length (extract_heartbeat_segments ?filtered [5, 15, 25] 4) = 3"
    unfolding raw by simp
  have some: "validate_segments (map (map Finite) (extract_heartbeat_segments ?filtered [5, 15, 25] 4)) 4 \<noteq> []"
    unfolding val by simp
  have m: "scaler_mean ?sc = replicate 4 0" by (simp add: replicate_4)
  have s: "scaler_scale ?sc = replicate 4 1" by (simp add: replicate_4)
  have "segment_ecg_beats ?ev ?sig ?sc 4 10
          = Inr (True, [[to_float32 (- 1), to_float32 (- 1), to_float32 29, to_float32 (- 1)]])"
    using normalizer_identity_up_to_float32 [OF pre det some m s, THEN conjunct1]
    unfolding val len by simp
  with pre det val m s show ?thesis by blast
qed

text \<open>
  A recording whose conditioned samples are \<open>-0.1\<close> and \<open>2.9\<close>: the accepted segment
  is \<open>[-0.1, -0.1, 2.9, -0.1]\<close>, and with the identity transform the output's first
  sample is \<open>-13421773 / 2^27\<close>, the 32-bit float nearest to \<open>-0.1\<close>, not \<open>-0.1\<close>.
\<close>

theorem normalizer_identity_counterexample:
  "validate_segments (map (map Finite)
       (extract_heartbeat_segments (replicate 15 (- (1 / 10)) @ [29 / 10] @ replicate 14 (- (1 / 10) :: real))
          [5, 15, 25] 4)) 4
     = [[Finite (- (1 / 10)), Finite (- (1 / 10)), Finite (29 / 10), Finite (- (1 / 10))]] \<and>
   segment_ecg_beats (fixed_env True [5, 15, 25]) (replicate 15 0 @ [3] @ replicate 14 0)
     \<lparr>scaler_mean = [0, 0, 0, 0], scaler_scale = [1, 1, 1, 1]\<rparr> 4 10
     = Inr (True, [[to_float32 (- (1 / 10)), to_float32 (- (1 / 10)), to_float32 (29 / 10),
                    to_float32 (- (1 / 10))]]) \<and>
   to_float32 (- (1 / 10)) = - (13421773 / 134217728) \<and>
   - (13421773 / 134217728) \<noteq> (- (1 / 10) :: real)"
proof -
  let ?ev = "fixed_env True [5, 15, 25]"
  let ?sig = "replicate 15 0 @ [3] @ replicate 14 (0 :: real)"
  let ?filtered = "replicate 15 (- (1 / 10)) @ [29 / 10] @ replicate 14 (- (1 / 10) :: real)"
  let ?sc = "\<lparr>scaler_mean = [0, 0, 0, 0], scaler_scale = [1, 1, 1, 1 :: real]\<rparr>"
  let ?raw = "[[- (1 / 10), - (1 / 10), - (1 / 10), - (1 / 10)],
               [- (1 / 10), - (1 / 10), 29 / 10, - (1 / 10)],
               [- (1 / 10), - (1 / 10), - (1 / 10), - (1 / 10 :: real)]]"
  have pre: "preprocess_ecg ?ev ?sig 10 = Inr ?filtered"
    by (simp add: preprocess_ecg_def np_mean_def sum_list_replicate filtfilt_padlen_def fixed_env_def)
  have det: "detect_r_peaks ?ev ?filtered 10 = Inr [5, 15, 25]"
    by (simp add: detect_r_peaks_def candidate_peaks_def fixed_env_def int_of_tenths_def Let_def)
  have raw: "extract_heartbeat_segments ?filtered [5, 15, 25] 4 = ?raw"
    by (simp add: Let_def py_slice_def replicate_4 replicate_2)
  have val: "validate_segments (map (map Finite) (extract_heartbeat_segments ?filtered [5, 15, 25] 4)) 4
               = [[Finite (- (1 / 10)), Finite (- (1 / 10)), Finite (29 / 10), Finite (- (1 / 10))]]"
    unfolding raw using flat_tenths_rejected beat_tenths_accepted by (simp add: validate_segments_spec)
  have len: "length (extract_heartbeat_segments ?filtered [5, 15, 25] 4) = 3"
    unfolding raw by simp
  have some: "validate_segments (map (map Finite) (extract_heartbeat_segments ?filtered [5, 15, 25] 4)) 4 \<noteq> []"
    unfolding val by simp
  have m: "scaler_mean ?sc = replicate 4 0" by (simp add: replicate_4)
  have s: "scaler_scale ?sc = replicate 4 1" by (simp add: replicate_4)
  have run: "segment_ecg_beats ?ev ?sig ?sc 4 10
          = Inr (True, [[to_float32 (- (1 / 10)), to_float32 (- (1 / 10)), to_float32 (29 / 10),
                         to_float32 (- (1 / 10))]])"
    using identity_transform_run [OF pre det some m s]
    unfolding val len by simp
  have ne: "- (13421773 / 134217728) \<noteq> (- (1 / 10) :: real)" by simp
  from val run to_float32_tenth ne show ?thesis by blast
qed

subsection \<open>Aggregator: percentages and overall confidence\<close>







lemma Counter_distinct: "distinct (map fst (Counter xs))"
proof (induction xs rule: rev_induct)
  case Nil
  show ?case by (simp add: Counter_def)
next
  case (snoc x xs)
  then show ?case
    using Counter_keys_set [of xs] by (simp add: Counter_keys_snoc del: set_map)
qed

lemma Counter_entry:
  assumes "(c, n) \<in> set (Counter xs)"
  shows "c \<in> set xs \<and> n = count_list xs c"
proof -
  from assms have "map_of (Counter xs) c = Some n"
    using Counter_distinct [of xs] by simp
  then show ?thesis
    by (simp add: Counter_map_of split: if_splits)
qed


























end
